theory Spec2Isabelle
  imports Complex_Main
begin

section \<open>Python values, exceptions and the configuration of MusePlotting.py\<close>

text \<open>
  The script is one module: a configuration block (lines 17-28 and 64-66), the function
  \<open>bandpass_filter\<close> (lines 31-38), the buffer initialisation (lines 41-42) and the
  sampling loop (lines 69-122). Python floats are idealised as reals; the one float that
  is not a real and that the script writes itself, \<open>np.nan\<close>, is a constructor of its
  own. Exceptions are values of \<open>py_error\<close>; a computation that may raise returns
  \<open>py_error + 'a\<close>, with \<open>Inl\<close> for the exception.
\<close>

datatype py_error = IndexError | KeyError | ValueError | ZeroDivisionError | OSError

datatype f64 = NaN | Num real

definition fs :: real where
  "fs = 256"

definition buffer_size :: nat where
  "buffer_size = 256 * 5"

definition channels :: "string list" where
  "channels = [''Channel 1'', ''Channel 2'', ''Channel 3'', ''Channel 4'']"

text \<open>A dict keeps its insertion order, and the script iterates over it: an association list.\<close>

definition BANDS :: "(string \<times> real \<times> real) list" where
  "BANDS = [(''Delta'', 1, 4), (''Theta'', 4, 8), (''Alpha'', 8, 13), (''Beta'', 13, 30)]"

definition save_interval :: real where
  "save_interval = 20"

section \<open>numpy arrays as lists\<close>

definition np_full :: "nat \<Rightarrow> 'a \<Rightarrow> 'a list" where
  "np_full n v = replicate n v"

text \<open>\<open>np.roll(a, shift)\<close> on a one-dimensional array: element \<open>i\<close> of the result is
  element \<open>(i - shift) mod n\<close> of \<open>a\<close>. It returns a new array.\<close>

definition np_roll :: "'a list \<Rightarrow> int \<Rightarrow> 'a list" where
  "np_roll a shift = (if a = [] then [] else rotate (nat ((- shift) mod int (length a))) a)"

text \<open>\<open>a[i] = v\<close> and \<open>a[i]\<close>: a negative index counts from the end, and an index out of
  range raises IndexError.\<close>

definition setitem :: "'a list \<Rightarrow> int \<Rightarrow> 'a \<Rightarrow> py_error + 'a list" where
  "setitem a i v =
     (let n = int (length a); j = (if i < 0 then i + n else i)
      in if j < 0 \<or> n \<le> j then Inl IndexError else Inr (a[nat j := v]))"

definition getitem :: "'a list \<Rightarrow> int \<Rightarrow> py_error + 'a" where
  "getitem a i =
     (let n = int (length a); j = (if i < 0 then i + n else i)
      in if j < 0 \<or> n \<le> j then Inl IndexError else Inr (a ! nat j))"

text \<open>Lines 79-80 and 90-91: \<open>buf = np.roll(buf, -1); buf[-1] = v\<close>.\<close>

definition roll_assign :: "'a list \<Rightarrow> 'a \<Rightarrow> py_error + 'a list" where
  "roll_assign buf v = setitem (np_roll buf (- 1)) (- 1) v"

text \<open>The same window over successive iterations of the loop, one value per iteration.\<close>

fun roll_assign_all :: "'a list \<Rightarrow> 'a list \<Rightarrow> py_error + 'a list" where
  "roll_assign_all buf [] = Inr buf"
| "roll_assign_all buf (v # vs) =
     (case roll_assign buf v of Inl e \<Rightarrow> Inl e | Inr buf' \<Rightarrow> roll_assign_all buf' vs)"

section \<open>scipy.signal\<close>

text \<open>
  \<open>butter(order, [low, high], btype='band')\<close> is a routine of SciPy, not of the script:
  it either raises or returns the numerator and denominator coefficients \<open>(b, a)\<close>.
  The script's functions take it as a parameter.
\<close>

type_synonym design = "nat \<Rightarrow> real \<Rightarrow> real \<Rightarrow> py_error + (real list \<times> real list)"

text \<open>
  \<open>lfilter(b, a, x)\<close> as SciPy documents it: a direct form II transposed structure;
  \<open>a\<close> and \<open>b\<close> are normalised by \<open>a[0]\<close>; with no \<open>zi\<close> argument the delay line
  starts at rest (all zeros). \<open>df2t\<close> runs the difference equation from a delay line \<open>z\<close>
  and returns the outputs with the final delay line. With a one-coefficient \<open>a\<close> SciPy
  convolves instead, which raises on an empty input. A zero \<open>a[0]\<close> raises, except that
  for a one-coefficient \<open>a\<close> SciPy divides by it and returns infinities; the reals have
  none, so the model raises there too. The script calls \<open>lfilter\<close> on one sample with the
  coefficients of \<open>butter\<close>, whose \<open>a[0]\<close> is 1.
\<close>

definition zero_pad :: "nat \<Rightarrow> real list \<Rightarrow> real list" where
  "zero_pad n c = c @ replicate (n - length c) 0"

fun df2t :: "real \<Rightarrow> real list \<Rightarrow> real list \<Rightarrow> real list \<Rightarrow> real list \<Rightarrow> real list \<times> real list" where
  "df2t b0 bs as z [] = ([], z)"
| "df2t b0 bs as z (x # xs) =
     (let y = b0 * x + (case z of [] \<Rightarrow> 0 | z0 # _ \<Rightarrow> z0);
          z' = map (\<lambda>(bi, ai, zi). bi * x + zi - ai * y) (zip bs (zip as (tl z @ [0])));
          (ys, zf) = df2t b0 bs as z' xs
      in (y # ys, zf))"

definition lfilter :: "real list \<Rightarrow> real list \<Rightarrow> real list \<Rightarrow> py_error + real list" where
  "lfilter b a x =
     (case a of
        [] \<Rightarrow> Inl ValueError
      | a0 # _ \<Rightarrow>
          if a0 = 0 \<or> b = [] \<or> (length a = 1 \<and> x = []) then Inl ValueError
          else
            (let n = max (length a) (length b);
                 bn = map (\<lambda>c. c / a0) (zero_pad n b);
                 an = map (\<lambda>c. c / a0) (zero_pad n a)
             in case bn of
                  [] \<Rightarrow> Inl ValueError
                | b0 # bs \<Rightarrow> Inr (fst (df2t b0 bs (tl an) (replicate (n - 1) 0) x))))"

section \<open>bandpass\_filter (lines 31-38)\<close>

text \<open>
  The debug print of line 37 writes to standard output, which is not modelled. The
  parameter \<open>fs\<close> of the source is \<open>fs'\<close> here (the module-level \<open>fs\<close> is a constant of
  the theory). \<open>lowcut / nyquist\<close> is a float division: it raises when \<open>nyquist\<close> is 0.
\<close>

definition bandpass_filter :: "design \<Rightarrow> real list \<Rightarrow> real \<Rightarrow> real \<Rightarrow> real \<Rightarrow> nat \<Rightarrow> py_error + real list" where
  "bandpass_filter butter data lowcut highcut fs' order =
     (let nyquist = 0.5 * fs'
      in if nyquist = 0 then Inl ZeroDivisionError
         else
           (let low = lowcut / nyquist; high = highcut / nyquist
            in case butter order low high of
                 Inl e \<Rightarrow> Inl e
               | Inr (b, a) \<Rightarrow> lfilter b a data))"

text \<open>Line 89: \<open>bandpass_filter([sample[i]], low, high, fs)[0]\<close>, with the default order 4.\<close>

definition filter_one :: "design \<Rightarrow> real \<Rightarrow> real \<Rightarrow> real \<Rightarrow> py_error + real" where
  "filter_one butter x low high =
     (case bandpass_filter butter [x] low high fs 4 of
        Inl e \<Rightarrow> Inl e
      | Inr y \<Rightarrow> getitem y 0)"

text \<open>What one (band, channel) pair receives over successive iterations of the loop:
  line 89 once per sample of the channel.\<close>

fun filter_stream :: "design \<Rightarrow> real \<Rightarrow> real \<Rightarrow> real list \<Rightarrow> py_error + real list" where
  "filter_stream butter low high [] = Inr []"
| "filter_stream butter low high (x # xs) =
     (case filter_one butter x low high of
        Inl e \<Rightarrow> Inl e
      | Inr y \<Rightarrow>
          (case filter_stream butter low high xs of
             Inl e \<Rightarrow> Inl e
           | Inr ys \<Rightarrow> Inr (y # ys)))"

section \<open>The sampling loop (lines 41-42 and 64-122)\<close>

text \<open>
  The state the loop mutates: the two dicts of buffers, the save timer and the contents
  of \<open>eeg_data_live.csv\<close> (a list of rows). One iteration reads from its environment the
  pulled sample and timestamp (line 72), the clock twice (lines 98 and 113) and whether
  opening and writing the file succeeds. The plot lines come with the heap model below.
\<close>

datatype cell = Str string | Flt f64

record state =
  raw_buffers :: "string \<rightharpoonup> f64 list"
  filtered_buffers :: "string \<rightharpoonup> (string \<rightharpoonup> f64 list)"
  last_save_time :: real
  csvfile :: "cell list list"

record tick_input =
  pulled_sample :: "real list"
  pulled_timestamp :: real
  clock_check :: real
  clock_reset :: real
  sink_ok :: bool

text \<open>A dict comprehension \<open>{k: f(k) for k in keys}\<close>.\<close>

definition dict_of :: "'k list \<Rightarrow> ('k \<Rightarrow> 'v) \<Rightarrow> ('k \<rightharpoonup> 'v)" where
  "dict_of keys f = foldl (\<lambda>m k. m(k \<mapsto> f k)) Map.empty keys"

text \<open>Lines 41, 42 and 66; \<open>now\<close> is the clock at line 66, \<open>csv0\<close> what the CSV file holds
  when the script starts.\<close>

definition init_state :: "real \<Rightarrow> cell list list \<Rightarrow> state" where
  "init_state now csv0 =
     \<lparr>raw_buffers = dict_of channels (\<lambda>channel. np_full buffer_size NaN),
      filtered_buffers =
        dict_of (map fst BANDS) (\<lambda>band. dict_of channels (\<lambda>channel. np_full buffer_size NaN)),
      last_save_time = now,
      csvfile = csv0\<rparr>"

text \<open>Lines 78-80, over \<open>enumerate(channels)\<close>.\<close>

fun update_raw :: "real list \<Rightarrow> (nat \<times> string) list \<Rightarrow> (string \<rightharpoonup> f64 list) \<Rightarrow> py_error + (string \<rightharpoonup> f64 list)" where
  "update_raw sample [] rb = Inr rb"
| "update_raw sample ((i, channel) # rest) rb =
     (case rb channel of
        None \<Rightarrow> Inl KeyError
      | Some buf \<Rightarrow>
          (case getitem sample (int i) of
             Inl e \<Rightarrow> Inl e
           | Inr x \<Rightarrow>
               (case roll_assign buf (Num x) of
                  Inl e \<Rightarrow> Inl e
                | Inr buf' \<Rightarrow> update_raw sample rest (rb(channel \<mapsto> buf')))))"

text \<open>Lines 88-91, the inner loop for one band.\<close>

fun filter_channels :: "design \<Rightarrow> real list \<Rightarrow> string \<Rightarrow> real \<Rightarrow> real \<Rightarrow> (nat \<times> string) list \<Rightarrow>
    (string \<rightharpoonup> (string \<rightharpoonup> f64 list)) \<Rightarrow> py_error + (string \<rightharpoonup> (string \<rightharpoonup> f64 list))" where
  "filter_channels butter sample band low high [] fbs = Inr fbs"
| "filter_channels butter sample band low high ((i, channel) # rest) fbs =
     (case getitem sample (int i) of
        Inl e \<Rightarrow> Inl e
      | Inr x \<Rightarrow>
          (case filter_one butter x low high of
             Inl e \<Rightarrow> Inl e
           | Inr filtered_sample \<Rightarrow>
               (case fbs band of
                  None \<Rightarrow> Inl KeyError
                | Some fb \<Rightarrow>
                    (case fb channel of
                       None \<Rightarrow> Inl KeyError
                     | Some buf \<Rightarrow>
                         (case roll_assign buf (Num filtered_sample) of
                            Inl e \<Rightarrow> Inl e
                          | Inr buf' \<Rightarrow>
                              filter_channels butter sample band low high rest
                                (fbs(band \<mapsto> fb(channel \<mapsto> buf'))))))))"

text \<open>Line 87, the outer loop over \<open>BANDS.items()\<close>.\<close>

fun filter_bands :: "design \<Rightarrow> real list \<Rightarrow> (string \<times> real \<times> real) list \<Rightarrow>
    (string \<rightharpoonup> (string \<rightharpoonup> f64 list)) \<Rightarrow> py_error + (string \<rightharpoonup> (string \<rightharpoonup> f64 list))" where
  "filter_bands butter sample [] fbs = Inr fbs"
| "filter_bands butter sample ((band, low, high) # rest) fbs =
     (case filter_channels butter sample band low high (enumerate 0 channels) fbs of
        Inl e \<Rightarrow> Inl e
      | Inr fbs' \<Rightarrow> filter_bands butter sample rest fbs')"

text \<open>Line 101.\<close>

definition header :: "cell list" where
  "header = [Str ''Timestamp''] @ map Str channels @
     concat (map (\<lambda>band. map (\<lambda>ch. Str (band @ '' - '' @ ch)) channels) (map fst BANDS))"

text \<open>Line 110: \<open>[filtered_buffers[band][ch][-1] for ch in channels]\<close>.\<close>

fun latest_values :: "(string \<rightharpoonup> (string \<rightharpoonup> f64 list)) \<Rightarrow> string \<Rightarrow> string list \<Rightarrow> py_error + f64 list" where
  "latest_values fbs band [] = Inr []"
| "latest_values fbs band (ch # chs) =
     (case fbs band of
        None \<Rightarrow> Inl KeyError
      | Some fb \<Rightarrow>
          (case fb ch of
             None \<Rightarrow> Inl KeyError
           | Some buf \<Rightarrow>
               (case getitem buf (- 1) of
                  Inl e \<Rightarrow> Inl e
                | Inr v \<Rightarrow>
                    (case latest_values fbs band chs of
                       Inl e \<Rightarrow> Inl e
                     | Inr vs \<Rightarrow> Inr (v # vs)))))"

text \<open>Lines 108-110: the row starts as \<open>[timestamp] + sample\<close> and is extended band by band.\<close>

fun extend_row :: "(string \<rightharpoonup> (string \<rightharpoonup> f64 list)) \<Rightarrow> string list \<Rightarrow> cell list \<Rightarrow> py_error + cell list" where
  "extend_row fbs [] row = Inr row"
| "extend_row fbs (band # bands) row =
     (case latest_values fbs band channels of
        Inl e \<Rightarrow> Inl e
      | Inr vs \<Rightarrow> extend_row fbs bands (row @ map Flt vs))"

definition data_row :: "real \<Rightarrow> real list \<Rightarrow> (string \<rightharpoonup> (string \<rightharpoonup> f64 list)) \<Rightarrow> py_error + cell list" where
  "data_row timestamp sample fbs =
     extend_row fbs (map fst BANDS) ([Flt (Num timestamp)] @ map (\<lambda>x. Flt (Num x)) sample)"

text \<open>
  Lines 98-113. The file is opened in append mode, so \<open>csvfile.tell() == 0\<close> holds
  exactly when the file is empty. A failure of the storage is an OSError raised inside
  the \<open>with\<close> block; line 113 is then not reached.
\<close>

definition save_due :: "tick_input \<Rightarrow> state \<Rightarrow> bool" where
  "save_due inp s = (clock_check inp - last_save_time s \<ge> save_interval)"

definition save :: "tick_input \<Rightarrow> state \<Rightarrow> py_error + state" where
  "save inp s =
     (if save_due inp s then
        (if \<not> sink_ok inp then Inl OSError
         else
           (case data_row (pulled_timestamp inp) (pulled_sample inp) (filtered_buffers s) of
              Inl e \<Rightarrow> Inl e
            | Inr row \<Rightarrow>
                Inr (s\<lparr>csvfile := csvfile s @ (if csvfile s = [] then [header] else []) @ [row],
                       last_save_time := clock_reset inp\<rparr>)))
      else Inr s)"

text \<open>One iteration of the \<open>while True\<close> body, lines 72-116.\<close>

definition tick :: "design \<Rightarrow> tick_input \<Rightarrow> state \<Rightarrow> py_error + state" where
  "tick butter inp s =
     (case update_raw (pulled_sample inp) (enumerate 0 channels) (raw_buffers s) of
        Inl e \<Rightarrow> Inl e
      | Inr rb \<Rightarrow>
          (case filter_bands butter (pulled_sample inp) BANDS (filtered_buffers s) of
             Inl e \<Rightarrow> Inl e
           | Inr fbs \<Rightarrow> save inp (s\<lparr>raw_buffers := rb, filtered_buffers := fbs\<rparr>)))"

text \<open>
  Lines 69-122. The loop has no exit of its own: it ends when an exception leaves the
  \<open>try\<close>. A KeyboardInterrupt (delivered while the loop waits for a sample) is the one
  exception the script handles; any other leaves the script after the \<open>finally\<close> block.
  The environment is a list of events; \<open>Running\<close> is the loop still waiting for the next.
\<close>

datatype event = Sample tick_input | Interrupt

datatype outcome = Running state | Stopped state | Crashed py_error

fun main_loop :: "design \<Rightarrow> state \<Rightarrow> event list \<Rightarrow> outcome" where
  "main_loop butter s [] = Running s"
| "main_loop butter s (Interrupt # evs) = Stopped s"
| "main_loop butter s (Sample inp # evs) =
     (case tick butter inp s of
        Inl e \<Rightarrow> Crashed e
      | Inr s' \<Rightarrow> main_loop butter s' evs)"

section \<open>Observations used to state the properties\<close>

text \<open>The length of a window, if the dict has it.\<close>

definition raw_len :: "(string \<rightharpoonup> f64 list) \<Rightarrow> string \<Rightarrow> nat option" where
  "raw_len rb ch = map_option length (rb ch)"

definition filtered_len :: "(string \<rightharpoonup> (string \<rightharpoonup> f64 list)) \<Rightarrow> string \<Rightarrow> string \<Rightarrow> nat option" where
  "filtered_len fbs band ch = (case fbs band of None \<Rightarrow> None | Some fb \<Rightarrow> map_option length (fb ch))"

text \<open>Every raw window and every (band, channel) window exists and has \<open>buffer_size\<close> cells.\<close>

definition windows_ok :: "state \<Rightarrow> bool" where
  "windows_ok s =
     (list_all (\<lambda>ch. raw_len (raw_buffers s) ch = Some buffer_size) channels \<and>
      list_all (\<lambda>band. list_all (\<lambda>ch. filtered_len (filtered_buffers s) band ch = Some buffer_size) channels)
        (map fst BANDS))"

text \<open>The state of the script while the loop runs or after it was interrupted.\<close>

definition state_of :: "outcome \<Rightarrow> state option" where
  "state_of out = (case out of Running s \<Rightarrow> Some s | Stopped s \<Rightarrow> Some s | Crashed e \<Rightarrow> None)"

text \<open>
  The argument check of \<open>butter\<close> for a digital band-pass, as SciPy documents it: the
  normalised cutoffs must satisfy \<open>0 < low < high < 1\<close>, and anything else raises a
  ValueError. A design routine has the check when it raises so.
\<close>

definition has_scipy_check :: "design \<Rightarrow> bool" where
  "has_scipy_check butter =
     (\<forall>order low high. \<not> (0 < low \<and> low < high \<and> high < 1) \<longrightarrow> butter order low high = Inl ValueError)"

text \<open>
  A stand-in for the design routine, to run the model on concrete inputs: SciPy's
  argument check, and a fixed second-order band-pass section for every band that passes.
\<close>

definition example_design :: design where
  "example_design order low high =
     (if 0 < low \<and> low < high \<and> high < 1 then Inr ([1 / 4, 0, - 1 / 4], [1, - 1, 1 / 2])
      else Inl ValueError)"

text \<open>An iteration at clock time \<open>t\<close>: a four-channel sample stamped \<open>t\<close>, an instantaneous
  write, a working file system.\<close>

definition attempt :: "real \<Rightarrow> event" where
  "attempt t = Sample \<lparr>pulled_sample = [1, 2, 3, 4], pulled_timestamp = t,
     clock_check = t, clock_reset = t, sink_ok = True\<rparr>"

section \<open>The buffers as arrays on a heap (lines 41-42 and 78-95)\<close>

text \<open>
  What a plot line can observe depends on which arrays are shared, so here the arrays
  live at addresses. \<open>np.full\<close> and \<open>np.roll\<close> return a new array; \<open>buf[-1] = v\<close>
  writes into an existing one; the dicts hold addresses; \<open>set_data\<close> hands the array
  itself to the plot line. \<open>published\<close> is the history of the \<open>set_data\<close> calls: the
  line, the address handed over, and what the array held at the call.
\<close>

datatype line = RawLine nat | FilteredLine string nat

record plot_state =
  heap :: "nat \<Rightarrow> f64 list"
  next_addr :: nat
  raw_refs :: "string \<rightharpoonup> nat"
  filtered_refs :: "string \<rightharpoonup> (string \<rightharpoonup> nat)"
  published :: "(line \<times> nat \<times> f64 list) list"

definition new_array :: "f64 list \<Rightarrow> plot_state \<Rightarrow> nat \<times> plot_state" where
  "new_array arr s =
     (next_addr s, s\<lparr>heap := (heap s)(next_addr s := arr), next_addr := Suc (next_addr s)\<rparr>)"

definition store_last :: "nat \<Rightarrow> f64 \<Rightarrow> plot_state \<Rightarrow> py_error + plot_state" where
  "store_last p v s =
     (case setitem (heap s p) (- 1) v of
        Inl e \<Rightarrow> Inl e
      | Inr arr \<Rightarrow> Inr (s\<lparr>heap := (heap s)(p := arr)\<rparr>))"

definition set_data :: "line \<Rightarrow> nat \<Rightarrow> plot_state \<Rightarrow> plot_state" where
  "set_data l p s = s\<lparr>published := published s @ [(l, p, heap s p)]\<rparr>"

text \<open>Lines 41 and 42: one new array per key, later keys overriding earlier ones.\<close>

fun alloc_dict :: "string list \<Rightarrow> (string \<rightharpoonup> nat) \<Rightarrow> plot_state \<Rightarrow> (string \<rightharpoonup> nat) \<times> plot_state" where
  "alloc_dict [] m s = (m, s)"
| "alloc_dict (k # ks) m s =
     (case new_array (np_full buffer_size NaN) s of
        (p, s1) \<Rightarrow> alloc_dict ks (m(k \<mapsto> p)) s1)"

fun alloc_bands :: "string list \<Rightarrow> (string \<rightharpoonup> (string \<rightharpoonup> nat)) \<Rightarrow> plot_state \<Rightarrow>
    (string \<rightharpoonup> (string \<rightharpoonup> nat)) \<times> plot_state" where
  "alloc_bands [] m s = (m, s)"
| "alloc_bands (band # bands) m s =
     (case alloc_dict channels Map.empty s of
        (d, s1) \<Rightarrow> alloc_bands bands (m(band \<mapsto> d)) s1)"

definition plot_init :: plot_state where
  "plot_init =
     (case alloc_dict channels Map.empty
             \<lparr>heap = (\<lambda>p. []), next_addr = 0, raw_refs = Map.empty, filtered_refs = Map.empty,
              published = []\<rparr> of
        (rr, s1) \<Rightarrow>
          (case alloc_bands (map fst BANDS) Map.empty s1 of
             (fr, s2) \<Rightarrow> s2\<lparr>raw_refs := rr, filtered_refs := fr\<rparr>))"

text \<open>Lines 78-84.\<close>

fun plot_update_raw :: "real list \<Rightarrow> (nat \<times> string) list \<Rightarrow> plot_state \<Rightarrow> py_error + plot_state" where
  "plot_update_raw sample [] s = Inr s"
| "plot_update_raw sample ((i, channel) # rest) s =
     (case raw_refs s channel of
        None \<Rightarrow> Inl KeyError
      | Some p \<Rightarrow>
          (case new_array (np_roll (heap s p) (- 1)) s of
             (q, s1) \<Rightarrow>
               (case getitem sample (int i) of
                  Inl e \<Rightarrow> Inl e
                | Inr x \<Rightarrow>
                    (case store_last q (Num x) (s1\<lparr>raw_refs := (raw_refs s1)(channel \<mapsto> q)\<rparr>) of
                       Inl e \<Rightarrow> Inl e
                     | Inr s2 \<Rightarrow> plot_update_raw sample rest (set_data (RawLine i) q s2)))))"

text \<open>Lines 88-95, the inner loop for one band.\<close>

fun plot_filter_channels :: "design \<Rightarrow> real list \<Rightarrow> string \<Rightarrow> real \<Rightarrow> real \<Rightarrow> (nat \<times> string) list \<Rightarrow>
    plot_state \<Rightarrow> py_error + plot_state" where
  "plot_filter_channels butter sample band low high [] s = Inr s"
| "plot_filter_channels butter sample band low high ((i, channel) # rest) s =
     (case getitem sample (int i) of
        Inl e \<Rightarrow> Inl e
      | Inr x \<Rightarrow>
          (case filter_one butter x low high of
             Inl e \<Rightarrow> Inl e
           | Inr filtered_sample \<Rightarrow>
               (case filtered_refs s band of
                  None \<Rightarrow> Inl KeyError
                | Some fr \<Rightarrow>
                    (case fr channel of
                       None \<Rightarrow> Inl KeyError
                     | Some p \<Rightarrow>
                         (case new_array (np_roll (heap s p) (- 1)) s of
                            (q, s1) \<Rightarrow>
                              (case store_last q (Num filtered_sample)
                                      (s1\<lparr>filtered_refs := (filtered_refs s1)(band \<mapsto> fr(channel \<mapsto> q))\<rparr>) of
                                 Inl e \<Rightarrow> Inl e
                               | Inr s2 \<Rightarrow>
                                   plot_filter_channels butter sample band low high rest
                                     (set_data (FilteredLine band i) q s2)))))))"

fun plot_filter_bands :: "design \<Rightarrow> real list \<Rightarrow> (string \<times> real \<times> real) list \<Rightarrow> plot_state \<Rightarrow>
    py_error + plot_state" where
  "plot_filter_bands butter sample [] s = Inr s"
| "plot_filter_bands butter sample ((band, low, high) # rest) s =
     (case plot_filter_channels butter sample band low high (enumerate 0 channels) s of
        Inl e \<Rightarrow> Inl e
      | Inr s' \<Rightarrow> plot_filter_bands butter sample rest s')"

text \<open>The buffer and plot part of one iteration, and of successive iterations.\<close>

definition plot_tick :: "design \<Rightarrow> real list \<Rightarrow> plot_state \<Rightarrow> py_error + plot_state" where
  "plot_tick butter sample s =
     (case plot_update_raw sample (enumerate 0 channels) s of
        Inl e \<Rightarrow> Inl e
      | Inr s1 \<Rightarrow> plot_filter_bands butter sample BANDS s1)"




text \<open>The dicts of buffers as the value model has them, read off the heap.\<close>

definition raw_view :: "plot_state \<Rightarrow> (string \<rightharpoonup> f64 list)" where
  "raw_view s = (\<lambda>ch. map_option (heap s) (raw_refs s ch))"

definition filtered_view :: "plot_state \<Rightarrow> (string \<rightharpoonup> (string \<rightharpoonup> f64 list))" where
  "filtered_view s = (\<lambda>band. map_option (\<lambda>fr ch. map_option (heap s) (fr ch)) (filtered_refs s band))"

text \<open>Every address a dict holds is allocated.\<close>

definition refs_allocated :: "plot_state \<Rightarrow> bool" where
  "refs_allocated s =
     ((\<forall>ch p. raw_refs s ch = Some p \<longrightarrow> p < next_addr s) \<and>
      (\<forall>band fr ch p. filtered_refs s band = Some fr \<longrightarrow> fr ch = Some p \<longrightarrow> p < next_addr s))"

section \<open>The filter of the specification, for comparison\<close>

text \<open>
  CausalBandFilter in the specification's words: the coefficients are designed once, at
  construction; \<open>apply\<close> feeds one sample through the difference equation starting from
  the delay line the previous \<open>apply\<close> left, and keeps the new delay line. This is not
  code of the script; \<open>filter_stream\<close> above is.
\<close>

record causal_band_filter =
  numerator :: "real list"
  denominator :: "real list"
  memory :: "real list"

definition causal_construct :: "design \<Rightarrow> real \<Rightarrow> real \<Rightarrow> real \<Rightarrow> nat \<Rightarrow> py_error + causal_band_filter" where
  "causal_construct butter lowHz highHz sampleRateHz order =
     (let nyquist = sampleRateHz / 2
      in if nyquist = 0 then Inl ZeroDivisionError
         else
           (case butter order (lowHz / nyquist) (highHz / nyquist) of
              Inl e \<Rightarrow> Inl e
            | Inr (b, a) \<Rightarrow>
                (case a of
                   [] \<Rightarrow> Inl ValueError
                 | a0 # _ \<Rightarrow>
                     if a0 = 0 \<or> b = [] then Inl ValueError
                     else
                       (let n = max (length a) (length b)
                        in Inr \<lparr>numerator = map (\<lambda>c. c / a0) (zero_pad n b),
                                denominator = map (\<lambda>c. c / a0) (zero_pad n a),
                                memory = replicate (n - 1) 0\<rparr>))))"

definition causal_apply :: "causal_band_filter \<Rightarrow> real \<Rightarrow> real \<times> causal_band_filter" where
  "causal_apply f x =
     (case numerator f of
        [] \<Rightarrow> (0, f)
      | b0 # bs \<Rightarrow>
          (case df2t b0 bs (tl (denominator f)) (memory f) [x] of
             (ys, z) \<Rightarrow> (case ys of [] \<Rightarrow> 0 | y # _ \<Rightarrow> y, f\<lparr>memory := z\<rparr>)))"

fun causal_run :: "causal_band_filter \<Rightarrow> real list \<Rightarrow> real list" where
  "causal_run f [] = []"
| "causal_run f (x # xs) = (case causal_apply f x of (y, f') \<Rightarrow> y # causal_run f' xs)"

definition causal_stream :: "design \<Rightarrow> real \<Rightarrow> real \<Rightarrow> real list \<Rightarrow> py_error + real list" where
  "causal_stream butter low high xs =
     (case causal_construct butter low high fs 4 of
        Inl e \<Rightarrow> Inl e
      | Inr f \<Rightarrow> Inr (causal_run f xs))"

text \<open>The sample an event delivers, for comparing two runs of the loop.\<close>

definition sample_of :: "event \<Rightarrow> real list option" where
  "sample_of ev = (case ev of Sample inp \<Rightarrow> Some (pulled_sample inp) | Interrupt \<Rightarrow> None)"

section \<open>Basic facts\<close>

lemma getitem_nat: "getitem a (int i) = (if i < length a then Inr (a ! i) else Inl IndexError)"
  by (simp add: getitem_def Let_def)

lemma getitem_minus1: "getitem a (- 1) = (if a = [] then Inl IndexError else Inr (last a))"
  by (cases a rule: rev_cases) (simp_all add: getitem_def Let_def nat_add_distrib)

lemma buffer_size_pos: "0 < buffer_size"
  by (simp add: buffer_size_def)

lemma dict_of_Some: "k \<in> set keys \<Longrightarrow> dict_of keys f k = Some (f k)"
proof -
  have "\<And>m. foldl (\<lambda>m k. m(k \<mapsto> f k)) m keys k = (if k \<in> set keys then Some (f k) else m k)"
    by (induction keys) auto
  then show "k \<in> set keys \<Longrightarrow> dict_of keys f k = Some (f k)" by (simp add: dict_of_def)
qed

section \<open>The rolling window\<close>

lemma roll_assign_nonempty:
  "buf \<noteq> [] \<Longrightarrow> roll_assign buf v = Inr (tl buf @ [v])"
proof (cases buf)
  case Nil
  assume "buf \<noteq> []"
  with Nil show ?thesis by simp
next
  case (Cons x xs)
  have "(- (- 1::int)) mod int (length (x # xs)) = (if xs = [] then 0 else 1)"
    by (cases xs) simp_all
  then have r: "np_roll (x # xs) (- 1) = xs @ [x]"
    by (cases xs) (simp_all add: np_roll_def)
  show ?thesis
    unfolding roll_assign_def r Cons
    by (simp add: setitem_def Let_def)
qed

lemma roll_assign_empty: "roll_assign [] v = Inl IndexError"
  by (simp add: roll_assign_def np_roll_def setitem_def)

lemma roll_assign_eq: "roll_assign buf v = (if buf = [] then Inl IndexError else Inr (tl buf @ [v]))"
  by (simp add: roll_assign_nonempty roll_assign_empty)

lemma roll_assign_all_nonempty:
  "buf \<noteq> [] \<Longrightarrow> roll_assign_all buf vs = Inr (drop (length vs) (buf @ vs))"
proof (induction vs arbitrary: buf)
  case Nil
  then show ?case by simp
next
  case (Cons v vs)
  from Cons.prems obtain x xs where b: "buf = x # xs" by (cases buf) auto
  have "roll_assign_all buf (v # vs) = roll_assign_all (xs @ [v]) vs"
    by (simp add: roll_assign_nonempty b)
  also have "\<dots> = Inr (drop (length vs) ((xs @ [v]) @ vs))"
    by (rule Cons.IH) simp
  finally show ?case by (simp add: b)
qed

text \<open>
  C5, as the script has it. For every capacity \<open>C > 0\<close> and every sequence \<open>vs\<close> of \<open>k\<close>
  values pushed into a fresh window (filled with the sentinel \<open>s\<close>): if \<open>k < C\<close> the
  window is \<open>C - k\<close> sentinels followed by the pushed values in push order; if
  \<open>k \<ge> C\<close> it is the last \<open>C\<close> pushed values in order and has length \<open>C\<close>. It holds no
  sentinel provided none was pushed: the sentinel is NaN, a value a reading can have, and
  line 80 stores every reading as it arrives.
\<close>

theorem rolling_window_after_pushes:
  assumes "0 < C"
  shows "\<exists>w. roll_assign_all (np_full C s) vs = Inr w \<and> length w = C \<and>
           (length vs < C \<longrightarrow> w = replicate (C - length vs) s @ vs) \<and>
           (C \<le> length vs \<longrightarrow> w = drop (length vs - C) vs \<and> (s \<notin> set vs \<longrightarrow> s \<notin> set w))"
proof -
  let ?w = "drop (length vs) (replicate C s @ vs)"
  from assms have "np_full C s \<noteq> []" by (simp add: np_full_def)
  then have "roll_assign_all (np_full C s) vs = Inr ?w"
    by (simp add: roll_assign_all_nonempty np_full_def)
  moreover have "length ?w = C" by simp
  moreover have "length vs < C \<longrightarrow> ?w = replicate (C - length vs) s @ vs"
    by simp
  moreover have "C \<le> length vs \<longrightarrow> ?w = drop (length vs - C) vs"
    by simp
  moreover have "C \<le> length vs \<longrightarrow> s \<notin> set vs \<longrightarrow> s \<notin> set ?w"
    by (auto dest: in_set_dropD)
  ultimately show ?thesis by blast
qed

theorem rolling_window_after_pushes_witness:
  "roll_assign_all (np_full 3 NaN) [Num 1, Num 2] = Inr [NaN, Num 1, Num 2] \<and>
   roll_assign_all (np_full 2 NaN) [Num 1, Num 2, Num 3] = Inr [Num 2, Num 3] \<and>
   NaN \<notin> set [Num 2, Num 3]"
  using rolling_window_after_pushes [of 3 NaN "[Num 1, Num 2]"]
    rolling_window_after_pushes [of 2 NaN "[Num 1, Num 2, Num 3]"]
  by (auto simp: numeral_2_eq_2 numeral_3_eq_3)

text \<open>
  Without the proviso the statement fails: a NaN among the last \<open>C\<close> pushed values is in
  the window. With capacity 2, the three pushes 1, NaN, 3 leave the full window
  \<open>[NaN, 3]\<close>; with capacity 1, one push of NaN leaves \<open>[NaN]\<close>.
\<close>

theorem rolling_window_counterexample:
  "roll_assign_all (np_full 2 NaN) [Num 1, NaN, Num 3] = Inr [NaN, Num 3] \<and>
   NaN \<in> set [NaN, Num 3] \<and>
   roll_assign_all (np_full 1 NaN) [NaN] = Inr [NaN]"
  by (simp add: roll_assign_eq np_full_def numeral_2_eq_2)

section \<open>The windows keep their length\<close>

lemma raw_len_upd:
  "rb ch = Some buf \<Longrightarrow> length buf' = length buf \<Longrightarrow> raw_len (rb(ch \<mapsto> buf')) c = raw_len rb c"
  by (simp add: raw_len_def)

lemma filtered_len_upd:
  "fbs band = Some fb \<Longrightarrow> fb ch = Some buf \<Longrightarrow> length buf' = length buf \<Longrightarrow>
   filtered_len (fbs(band \<mapsto> fb(ch \<mapsto> buf'))) b c = filtered_len fbs b c"
  by (simp add: filtered_len_def)

lemma update_raw_len:
  "update_raw sample ics rb = Inr rb' \<Longrightarrow> raw_len rb' c = raw_len rb c"
proof (induction ics arbitrary: rb)
  case Nil
  then show ?case by simp
next
  case (Cons ic ics)
  obtain i channel where ic: "ic = (i, channel)" by (cases ic)
  from Cons.prems obtain buf x where
    b: "rb channel = Some buf" "buf \<noteq> []" and
    r: "update_raw sample ics (rb(channel \<mapsto> tl buf @ [Num x])) = Inr rb'"
    by (auto simp: ic roll_assign_eq getitem_nat split: option.splits if_splits sum.splits)
  note Cons.IH [OF r]
  also from b have "raw_len (rb(channel \<mapsto> tl buf @ [Num x])) c = raw_len rb c"
    by (intro raw_len_upd) simp_all
  finally show ?case .
qed

lemma filter_channels_len:
  "filter_channels butter sample band low high ics fbs = Inr fbs' \<Longrightarrow>
   filtered_len fbs' b c = filtered_len fbs b c"
proof (induction ics arbitrary: fbs)
  case Nil
  then show ?case by simp
next
  case (Cons ic ics)
  obtain i channel where ic: "ic = (i, channel)" by (cases ic)
  from Cons.prems obtain fb buf y where
    f: "fbs band = Some fb" "fb channel = Some buf" "buf \<noteq> []" and
    r: "filter_channels butter sample band low high ics (fbs(band \<mapsto> fb(channel \<mapsto> tl buf @ [Num y]))) = Inr fbs'"
    by (auto simp: ic roll_assign_eq getitem_nat split: option.splits if_splits sum.splits)
  note Cons.IH [OF r]
  also from f have "filtered_len (fbs(band \<mapsto> fb(channel \<mapsto> tl buf @ [Num y]))) b c = filtered_len fbs b c"
    by (intro filtered_len_upd) simp_all
  finally show ?case .
qed

lemma filter_bands_len:
  "filter_bands butter sample bands fbs = Inr fbs' \<Longrightarrow> filtered_len fbs' b c = filtered_len fbs b c"
proof (induction bands arbitrary: fbs)
  case Nil
  then show ?case by simp
next
  case (Cons bd bands)
  obtain band low high where bd: "bd = (band, low, high)" by (cases bd)
  from Cons.prems obtain fbs1 where
    1: "filter_channels butter sample band low high (enumerate 0 channels) fbs = Inr fbs1" and
    2: "filter_bands butter sample bands fbs1 = Inr fbs'"
    by (auto simp: bd split: sum.splits)
  from Cons.IH [OF 2] filter_channels_len [OF 1] show ?case by simp
qed

lemma save_buffers:
  "save inp s = Inr s' \<Longrightarrow> raw_buffers s' = raw_buffers s \<and> filtered_buffers s' = filtered_buffers s"
  by (auto simp: save_def split: if_splits sum.splits)

lemma tick_buffers:
  assumes "tick butter inp s = Inr s'"
  shows "update_raw (pulled_sample inp) (enumerate 0 channels) (raw_buffers s) = Inr (raw_buffers s')"
    and "filter_bands butter (pulled_sample inp) BANDS (filtered_buffers s) = Inr (filtered_buffers s')"
  using assms by (auto simp: tick_def split: sum.splits dest!: save_buffers)

lemma tick_windows_ok:
  assumes "tick butter inp s = Inr s'" "windows_ok s"
  shows "windows_ok s'"
  using assms(2) update_raw_len [OF tick_buffers(1) [OF assms(1)]]
    filter_bands_len [OF tick_buffers(2) [OF assms(1)]]
  by (simp add: windows_ok_def)

lemma main_loop_windows_ok:
  "windows_ok s \<Longrightarrow> main_loop butter s evs = Running s' \<or> main_loop butter s evs = Stopped s' \<Longrightarrow> windows_ok s'"
proof (induction evs arbitrary: s)
  case Nil
  then show ?case by simp
next
  case (Cons ev evs)
  show ?case
  proof (cases ev)
    case (Sample inp)
    with Cons.prems obtain s1 where t: "tick butter inp s = Inr s1"
      and r: "main_loop butter s1 evs = Running s' \<or> main_loop butter s1 evs = Stopped s'"
      by (auto split: sum.splits)
    from Cons.IH [OF tick_windows_ok [OF t Cons.prems(1)] r] show ?thesis .
  next
    case Interrupt
    with Cons.prems show ?thesis by simp
  qed
qed

lemma init_windows_ok: "windows_ok (init_state now csv0)"
  by (auto simp: windows_ok_def init_state_def list_all_iff dict_of_Some np_full_def raw_len_def filtered_len_def)


lemma update_raw_succeeds:
  assumes "\<And>i ch. (i, ch) \<in> set ics \<Longrightarrow> i < length sample \<and> (\<exists>n. raw_len rb ch = Some n \<and> 0 < n)"
  shows "\<exists>rb'. update_raw sample ics rb = Inr rb'"
  using assms
proof (induction ics arbitrary: rb)
  case Nil
  then show ?case by simp
next
  case (Cons ic ics)
  obtain i channel where ic: "ic = (i, channel)" by (cases ic)
  from Cons.prems [of i channel] obtain buf where
    b: "i < length sample" "rb channel = Some buf" "buf \<noteq> []"
    by (auto simp: ic raw_len_def)
  have "\<exists>rb'. update_raw sample ics (rb(channel \<mapsto> tl buf @ [Num (sample ! i)])) = Inr rb'"
  proof (rule Cons.IH)
    fix j ch
    assume "(j, ch) \<in> set ics"
    with Cons.prems [of j ch] have "j < length sample \<and> (\<exists>n. raw_len rb ch = Some n \<and> 0 < n)"
      by simp
    moreover from b have "raw_len (rb(channel \<mapsto> tl buf @ [Num (sample ! i)])) ch = raw_len rb ch"
      by (intro raw_len_upd) simp_all
    ultimately show "j < length sample \<and>
        (\<exists>n. raw_len (rb(channel \<mapsto> tl buf @ [Num (sample ! i)])) ch = Some n \<and> 0 < n)"
      by simp
  qed
  with b show ?case
    by (simp add: ic getitem_nat roll_assign_eq)
qed

lemma filter_channels_succeeds:
  assumes "\<And>i ch. (i, ch) \<in> set ics \<Longrightarrow>
             i < length sample \<and> (\<exists>n. filtered_len fbs band ch = Some n \<and> 0 < n)"
    and "\<And>x. \<exists>y. filter_one butter x low high = Inr y"
  shows "\<exists>fbs'. filter_channels butter sample band low high ics fbs = Inr fbs'"
  using assms(1)
proof (induction ics arbitrary: fbs)
  case Nil
  then show ?case by simp
next
  case (Cons ic ics)
  obtain i channel where ic: "ic = (i, channel)" by (cases ic)
  from Cons.prems [of i channel] obtain fb buf where
    b: "i < length sample" "fbs band = Some fb" "fb channel = Some buf" "buf \<noteq> []"
    by (auto simp: ic filtered_len_def split: option.splits)
  from assms(2) obtain y where y: "filter_one butter (sample ! i) low high = Inr y"
    by blast
  have "\<exists>fbs'. filter_channels butter sample band low high ics
          (fbs(band \<mapsto> fb(channel \<mapsto> tl buf @ [Num y]))) = Inr fbs'"
  proof (rule Cons.IH)
    fix j ch
    assume "(j, ch) \<in> set ics"
    with Cons.prems [of j ch]
    have "j < length sample \<and> (\<exists>n. filtered_len fbs band ch = Some n \<and> 0 < n)"
      by simp
    moreover from b
    have "filtered_len (fbs(band \<mapsto> fb(channel \<mapsto> tl buf @ [Num y]))) band ch = filtered_len fbs band ch"
      by (intro filtered_len_upd) simp_all
    ultimately show "j < length sample \<and>
        (\<exists>n. filtered_len (fbs(band \<mapsto> fb(channel \<mapsto> tl buf @ [Num y]))) band ch = Some n \<and> 0 < n)"
      by simp
  qed
  with b y show ?case
    by (simp add: ic getitem_nat roll_assign_eq)
qed

lemma filter_bands_succeeds:
  assumes "\<And>band low high i ch. (band, low, high) \<in> set bands \<Longrightarrow> (i, ch) \<in> set (enumerate 0 channels) \<Longrightarrow>
             i < length sample \<and> (\<exists>n. filtered_len fbs band ch = Some n \<and> 0 < n)"
    and "\<And>band low high x. (band, low, high) \<in> set bands \<Longrightarrow> \<exists>y. filter_one butter x low high = Inr y"
  shows "\<exists>fbs'. filter_bands butter sample bands fbs = Inr fbs'"
  using assms
proof (induction bands arbitrary: fbs)
  case Nil
  then show ?case by simp
next
  case (Cons bd bands)
  obtain band low high where bd: "bd = (band, low, high)" by (cases bd)
  have "\<exists>fbs1. filter_channels butter sample band low high (enumerate 0 channels) fbs = Inr fbs1"
  proof (rule filter_channels_succeeds)
    fix i ch
    assume "(i, ch) \<in> set (enumerate 0 channels)"
    with Cons.prems(1) [of band low high i ch]
    show "i < length sample \<and> (\<exists>n. filtered_len fbs band ch = Some n \<and> 0 < n)"
      by (simp add: bd)
  next
    fix x
    from Cons.prems(2) [of band low high x] show "\<exists>y. filter_one butter x low high = Inr y"
      by (simp add: bd)
  qed
  then obtain fbs1 where 1: "filter_channels butter sample band low high (enumerate 0 channels) fbs = Inr fbs1"
    by blast
  have "\<exists>fbs'. filter_bands butter sample bands fbs1 = Inr fbs'"
  proof (rule Cons.IH)
    fix b l h i ch
    assume "(b, l, h) \<in> set bands" "(i, ch) \<in> set (enumerate 0 channels)"
    with Cons.prems(1) [of b l h i ch] filter_channels_len [OF 1, of b ch]
    show "i < length sample \<and> (\<exists>n. filtered_len fbs1 b ch = Some n \<and> 0 < n)"
      by simp
  next
    fix b l h x
    assume "(b, l, h) \<in> set bands"
    with Cons.prems(2) [of b l h x] show "\<exists>y. filter_one butter x l h = Inr y" by simp
  qed
  with 1 show ?case by (simp add: bd)
qed

lemma latest_values_succeeds:
  assumes "\<And>ch. ch \<in> set chs \<Longrightarrow> \<exists>n. filtered_len fbs band ch = Some n \<and> 0 < n"
  shows "\<exists>vs. latest_values fbs band chs = Inr vs \<and> length vs = length chs"
  using assms
proof (induction chs)
  case Nil
  then show ?case by simp
next
  case (Cons ch chs)
  from Cons.prems [of ch] obtain fb buf where
    b: "fbs band = Some fb" "fb ch = Some buf" "buf \<noteq> []"
    by (auto simp: filtered_len_def split: option.splits)
  from Cons.IH Cons.prems obtain vs where "latest_values fbs band chs = Inr vs" "length vs = length chs"
    by auto
  with b show ?case by (simp add: getitem_minus1)
qed

lemma extend_row_succeeds:
  assumes "\<And>band ch. band \<in> set bands \<Longrightarrow> ch \<in> set channels \<Longrightarrow>
             \<exists>n. filtered_len fbs band ch = Some n \<and> 0 < n"
  shows "\<exists>r. extend_row fbs bands row = Inr r \<and> length r = length row + length bands * length channels"
  using assms
proof (induction bands arbitrary: row)
  case Nil
  then show ?case by simp
next
  case (Cons band bands)
  have "\<exists>vs. latest_values fbs band channels = Inr vs \<and> length vs = length channels"
    by (rule latest_values_succeeds) (use Cons.prems in auto)
  then obtain vs where v: "latest_values fbs band channels = Inr vs" "length vs = length channels"
    by blast
  from Cons.IH [of "row @ map Flt vs"] Cons.prems
  obtain r where "extend_row fbs bands (row @ map Flt vs) = Inr r"
    "length r = length (row @ map Flt vs) + length bands * length channels"
    by auto
  with v show ?case by simp
qed

lemma windows_okD:
  assumes "windows_ok s"
  shows "ch \<in> set channels \<Longrightarrow> raw_len (raw_buffers s) ch = Some buffer_size"
    and "band \<in> fst ` set BANDS \<Longrightarrow> ch \<in> set channels \<Longrightarrow>
         filtered_len (filtered_buffers s) band ch = Some buffer_size"
  using assms by (auto simp: windows_ok_def list_all_iff)

lemma save_due_buffers [simp]:
  "save_due inp (s\<lparr>raw_buffers := rb, filtered_buffers := fbs\<rparr>) = save_due inp s"
  by (simp add: save_due_def)

lemma tick_succeeds:
  assumes ok: "windows_ok s"
    and len: "length channels \<le> length (pulled_sample inp)"
    and des: "\<And>band low high x. (band, low, high) \<in> set BANDS \<Longrightarrow> \<exists>y. filter_one butter x low high = Inr y"
    and sink: "save_due inp s \<Longrightarrow> sink_ok inp"
  shows "\<exists>s'. tick butter inp s = Inr s'"
proof -
  have en: "\<And>i ch. (i, ch) \<in> set (enumerate 0 channels) \<Longrightarrow> i < length (pulled_sample inp) \<and> ch \<in> set channels"
    using len by (auto simp: in_set_enumerate_eq)
  have "\<exists>rb. update_raw (pulled_sample inp) (enumerate 0 channels) (raw_buffers s) = Inr rb"
    by (rule update_raw_succeeds) (use en windows_okD(1) [OF ok] buffer_size_pos in auto)
  then obtain rb where rb: "update_raw (pulled_sample inp) (enumerate 0 channels) (raw_buffers s) = Inr rb"
    by blast
  have "\<exists>fbs. filter_bands butter (pulled_sample inp) BANDS (filtered_buffers s) = Inr fbs"
  proof (rule filter_bands_succeeds)
    fix band low high i ch
    assume "(band, low, high) \<in> set BANDS" "(i, ch) \<in> set (enumerate 0 channels)"
    then have "band \<in> fst ` set BANDS" "ch \<in> set channels" "i < length (pulled_sample inp)"
      using en by force+
    with windows_okD(2) [OF ok] buffer_size_pos
    show "i < length (pulled_sample inp) \<and> (\<exists>n. filtered_len (filtered_buffers s) band ch = Some n \<and> 0 < n)"
      by simp
  qed (rule des)
  then obtain fbs where fbs: "filter_bands butter (pulled_sample inp) BANDS (filtered_buffers s) = Inr fbs"
    by blast
  let ?s1 = "s\<lparr>raw_buffers := rb, filtered_buffers := fbs\<rparr>"
  have "\<exists>s'. save inp ?s1 = Inr s'"
  proof (cases "save_due inp s")
    case False
    then show ?thesis by (simp add: save_def)
  next
    case True
    have "\<exists>r. extend_row fbs (map fst BANDS)
             ([Flt (Num (pulled_timestamp inp))] @ map (\<lambda>x. Flt (Num x)) (pulled_sample inp)) = Inr r \<and>
           length r = length ([Flt (Num (pulled_timestamp inp))] @ map (\<lambda>x. Flt (Num x)) (pulled_sample inp))
             + length (map fst BANDS) * length channels"
    proof (rule extend_row_succeeds)
      fix band ch
      assume "band \<in> set (map fst BANDS)" "ch \<in> set channels"
      with windows_okD(2) [OF ok, of band ch] filter_bands_len [OF fbs, of band ch] buffer_size_pos
      show "\<exists>n. filtered_len fbs band ch = Some n \<and> 0 < n" by simp
    qed
    with True sink show ?thesis
      by (auto simp: save_def data_row_def)
  qed
  with rb fbs show ?thesis by (simp add: tick_def)
qed

section \<open>A single-sample call of the filter\<close>

lemma rest_head: "(case replicate n (0::real) of [] \<Rightarrow> 0 | z0 # _ \<Rightarrow> z0) = 0"
  by (cases n) simp_all

lemma lfilter_single:
  "a0 \<noteq> 0 \<Longrightarrow> lfilter (b0 # bs) (a0 # as) [x] = Inr [b0 / a0 * x]"
  by (simp add: lfilter_def zero_pad_def Let_def rest_head)

lemma filter_one_eq:
  assumes "butter 4 (low / (0.5 * fs)) (high / (0.5 * fs)) = Inr (b0 # bs, a0 # as)" "a0 \<noteq> 0"
  shows "filter_one butter x low high = Inr (b0 / a0 * x)"
  using assms by (simp add: filter_one_def bandpass_filter_def fs_def lfilter_single getitem_def Let_def)

lemma example_design_BANDS:
  assumes "(band, low, high) \<in> set BANDS"
  shows "example_design 4 (low / (0.5 * fs)) (high / (0.5 * fs)) = Inr ([1 / 4, 0, - 1 / 4], [1, - 1, 1 / 2])"
  using assms by (auto simp: BANDS_def example_design_def fs_def)

lemma example_design_ok:
  assumes "(band, low, high) \<in> set BANDS"
  shows "\<exists>y. filter_one example_design x low high = Inr y"
proof -
  have "filter_one example_design x low high = Inr (1 / 4 / 1 * x)"
    by (rule filter_one_eq [where butter = example_design, OF example_design_BANDS [OF assms]]) simp
  then show ?thesis by blast
qed

section \<open>The loop on well-formed input\<close>

lemma main_loop_no_crash:
  assumes "windows_ok s"
    and "\<And>inp. Sample inp \<in> set evs \<Longrightarrow> length channels \<le> length (pulled_sample inp) \<and> sink_ok inp"
    and "\<And>band low high x. (band, low, high) \<in> set BANDS \<Longrightarrow> \<exists>y. filter_one butter x low high = Inr y"
  shows "\<exists>s'. main_loop butter s evs = Running s' \<or> main_loop butter s evs = Stopped s'"
  using assms(1,2)
proof (induction evs arbitrary: s)
  case Nil
  then show ?case by simp
next
  case (Cons ev evs)
  show ?case
  proof (cases ev)
    case (Sample inp)
    from Cons.prems(2) [of inp] Sample
    have wf: "length channels \<le> length (pulled_sample inp)" "sink_ok inp"
      by simp_all
    have "\<exists>s1. tick butter inp s = Inr s1"
      using Cons.prems(1) wf(1) assms(3) wf(2) by (rule tick_succeeds)
    then obtain s1 where t: "tick butter inp s = Inr s1" by blast
    have "\<exists>s'. main_loop butter s1 evs = Running s' \<or> main_loop butter s1 evs = Stopped s'"
    proof (rule Cons.IH)
      show "windows_ok s1" using t Cons.prems(1) by (rule tick_windows_ok)
    next
      fix i
      assume "Sample i \<in> set evs"
      then show "length channels \<le> length (pulled_sample i) \<and> sink_ok i"
        using Cons.prems(2) [of i] by simp
    qed
    with t Sample show ?thesis by simp
  next
    case Interrupt
    then show ?thesis by simp
  qed
qed

text \<open>
  C6. Every window has \<open>buffer_size\<close> cells after initialisation, and in every state the
  loop reaches (still running after any number of iterations, or stopped by an
  interrupt); \<open>buffer_size\<close> is the sample rate times the five seconds of the window;
  a roll-and-assign that succeeds drops the oldest cell, appends the new value and keeps
  the length.
\<close>

theorem window_length_invariant:
  "windows_ok (init_state now csv0) \<and>
   (main_loop butter (init_state now csv0) evs = Running s \<or>
    main_loop butter (init_state now csv0) evs = Stopped s \<longrightarrow> windows_ok s) \<and>
   (roll_assign buf v = Inr buf' \<longrightarrow> buf' = tl buf @ [v] \<and> length buf' = length buf) \<and>
   real buffer_size = fs * 5"
proof -
  have "roll_assign buf v = Inr buf' \<longrightarrow> buf' = tl buf @ [v] \<and> length buf' = length buf"
    by (auto simp: roll_assign_eq split: if_splits)
  moreover have "real buffer_size = fs * 5"
    by (simp add: buffer_size_def fs_def)
  ultimately show ?thesis
    using init_windows_ok [of now csv0] main_loop_windows_ok [of "init_state now csv0" butter evs s]
    by blast
qed


theorem window_length_invariant_witness:
  "\<exists>s. (main_loop example_design (init_state 0 []) [attempt 0, attempt 5, Interrupt] = Running s \<or>
        main_loop example_design (init_state 0 []) [attempt 0, attempt 5, Interrupt] = Stopped s) \<and>
       windows_ok s \<and> roll_assign [NaN, Num 1] (Num 2) = Inr [Num 1, Num 2]"
proof -
  let ?evs = "[attempt 0, attempt 5, Interrupt]"
  have "\<exists>s. main_loop example_design (init_state 0 []) ?evs = Running s \<or>
        main_loop example_design (init_state 0 []) ?evs = Stopped s"
  proof (rule main_loop_no_crash [where butter = example_design, OF init_windows_ok _ example_design_ok])
    fix inp
    assume "Sample inp \<in> set ?evs"
    then have "inp = \<lparr>pulled_sample = [1, 2, 3, 4], pulled_timestamp = 0, clock_check = 0, clock_reset = 0, sink_ok = True\<rparr>
       \<or> inp = \<lparr>pulled_sample = [1, 2, 3, 4], pulled_timestamp = 5, clock_check = 5, clock_reset = 5, sink_ok = True\<rparr>"
      by (simp add: attempt_def)
    then show "length channels \<le> length (pulled_sample inp) \<and> sink_ok inp"
      by (auto simp: channels_def)
  qed
  then obtain s where
    s: "main_loop example_design (init_state 0 []) ?evs = Running s \<or>
        main_loop example_design (init_state 0 []) ?evs = Stopped s"
    by blast
  from window_length_invariant [of 0 "[]" example_design ?evs s]
  have "main_loop example_design (init_state 0 []) ?evs = Running s \<or>
        main_loop example_design (init_state 0 []) ?evs = Stopped s \<longrightarrow> windows_ok s"
    by (rule conjunct1 [OF conjunct2])
  with s have "windows_ok s" by (rule rev_mp)
  moreover have "roll_assign [NaN, Num 1] (Num 2) = Inr [Num 1, Num 2]"
    by (simp add: roll_assign_eq)
  ultimately show ?thesis using s by (intro exI [of _ s] conjI)
qed

section \<open>The save step\<close>

lemmas eval_defs = tick_def init_state_def dict_of_def channels_def BANDS_def enumerate_eq_zip
  np_full_def buffer_size_def roll_assign_eq getitem_nat getitem_minus1 filter_one_def
  bandpass_filter_def example_design_def fs_def lfilter_def zero_pad_def Let_def save_def
  save_due_def save_interval_def data_row_def header_def attempt_def state_of_def getitem_def

lemma save_result:
  assumes "save inp s = Inr s'"
  shows "save_due inp s \<Longrightarrow> sink_ok inp \<and> last_save_time s' = clock_reset inp \<and>
           (\<exists>row. data_row (pulled_timestamp inp) (pulled_sample inp) (filtered_buffers s) = Inr row \<and>
              csvfile s' = csvfile s @ (if csvfile s = [] then [header] else []) @ [row])"
    and "\<not> save_due inp s \<Longrightarrow> s' = s"
  using assms by (auto simp: save_def split: if_splits sum.splits)

lemma tick_save:
  assumes "tick butter inp s = Inr s'"
  shows "save_due inp s \<Longrightarrow> sink_ok inp \<and> last_save_time s' = clock_reset inp \<and>
           (\<exists>row. data_row (pulled_timestamp inp) (pulled_sample inp) (filtered_buffers s') = Inr row \<and>
              csvfile s' = csvfile s @ (if csvfile s = [] then [header] else []) @ [row])"
    and "\<not> save_due inp s \<Longrightarrow> last_save_time s' = last_save_time s \<and> csvfile s' = csvfile s"
proof -
  from assms obtain rb fbs where
    sv: "save inp (s\<lparr>raw_buffers := rb, filtered_buffers := fbs\<rparr>) = Inr s'"
    by (auto simp: tick_def split: sum.splits)
  from save_buffers [OF sv] have fb: "filtered_buffers s' = fbs" by simp
  show "save_due inp s \<Longrightarrow> sink_ok inp \<and> last_save_time s' = clock_reset inp \<and>
           (\<exists>row. data_row (pulled_timestamp inp) (pulled_sample inp) (filtered_buffers s') = Inr row \<and>
              csvfile s' = csvfile s @ (if csvfile s = [] then [header] else []) @ [row])"
    using save_result(1) [OF sv] by (simp add: fb)
  show "\<not> save_due inp s \<Longrightarrow> last_save_time s' = last_save_time s \<and> csvfile s' = csvfile s"
    using save_result(2) [OF sv] by auto
qed

text \<open>
  C2, as the script has it. An iteration that completes wrote to the file exactly when
  the clock read at the check is at least \<open>save_interval\<close> past \<open>last_save_time\<close>; it
  then sets \<open>last_save_time\<close> to a second reading of the clock, taken after the write
  (not to the reading it compared); otherwise the timer is unchanged. The timer starts at
  the clock of the script's start, so nothing is due at the start.
\<close>

theorem save_gate:
  assumes "tick butter inp s = Inr s'"
  shows "(csvfile s' \<noteq> csvfile s) = (save_interval \<le> clock_check inp - last_save_time s) \<and>
         last_save_time s' =
           (if save_interval \<le> clock_check inp - last_save_time s then clock_reset inp
            else last_save_time s) \<and>
         last_save_time (init_state now csv0) = now"
proof (cases "save_due inp s")
  case True
  with tick_save(1) [OF assms] show ?thesis
    by (auto simp: save_due_def init_state_def)
next
  case False
  with tick_save(2) [OF assms] show ?thesis
    by (auto simp: save_due_def init_state_def)
qed

theorem save_gate_witness:
  "\<exists>s'. tick example_design
          \<lparr>pulled_sample = [1, 2, 3, 4], pulled_timestamp = 20, clock_check = 20, clock_reset = 21,
           sink_ok = True\<rparr> (init_state 0 []) = Inr s' \<and>
        csvfile s' \<noteq> [] \<and> last_save_time s' = 21"
proof -
  let ?inp = "\<lparr>pulled_sample = [1, 2, 3, 4], pulled_timestamp = 20, clock_check = 20,
    clock_reset = 21, sink_ok = True\<rparr>"
  have "\<exists>s'. tick example_design ?inp (init_state 0 []) = Inr s'"
    by (rule tick_succeeds [where butter = example_design, OF init_windows_ok _ example_design_ok])
      (simp_all add: channels_def)
  then obtain s' where t: "tick example_design ?inp (init_state 0 []) = Inr s'" by blast
  from save_gate [OF t, of 0 "[]"] have "csvfile s' \<noteq> [] \<and> last_save_time s' = 21"
    by (simp add: init_state_def save_interval_def)
  with t show ?thesis by blast
qed

theorem save_gate_counterexample:
  "map_option (map hd \<circ> csvfile)
     (state_of (main_loop example_design (init_state 0 []) (map attempt [0, 5, 19, 20, 25]))) =
     Some [Str ''Timestamp'', Flt (Num 20)] \<and>
   map_option last_save_time
     (state_of (main_loop example_design (init_state 0 [])
        [Sample \<lparr>pulled_sample = [1, 2, 3, 4], pulled_timestamp = 20, clock_check = 20,
           clock_reset = 21, sink_ok = True\<rparr>])) = Some 21"
  by (simp add: eval_defs)

section \<open>A failing write\<close>

text \<open>
  C4, as the script has it. When a write is due and the storage fails, the exception is
  not handled: the iteration raises, the loop ends there and no later event is processed
  (so nothing is retried). The exception is the OSError of the write whenever the buffer
  updates of the iteration went through.
\<close>

theorem sink_failure_ends_loop:
  assumes "save_due inp s" "\<not> sink_ok inp"
  shows "(\<exists>e. main_loop butter s (Sample inp # evs) = Crashed e) \<and>
         (update_raw (pulled_sample inp) (enumerate 0 channels) (raw_buffers s) = Inr rb \<longrightarrow>
          filter_bands butter (pulled_sample inp) BANDS (filtered_buffers s) = Inr fbs \<longrightarrow>
          main_loop butter s (Sample inp # evs) = Crashed OSError)"
  using assms by (auto simp: tick_def save_def split: sum.splits)

theorem sink_failure_ends_loop_witness:
  "main_loop example_design (init_state 0 [])
     [Sample \<lparr>pulled_sample = [1, 2, 3, 4], pulled_timestamp = 30, clock_check = 30,
        clock_reset = 30, sink_ok = False\<rparr>, attempt 60] = Crashed OSError"
proof -
  let ?inp = "\<lparr>pulled_sample = [1, 2, 3, 4], pulled_timestamp = 30, clock_check = 30,
    clock_reset = 30, sink_ok = False\<rparr>"
  have "\<exists>s'. tick example_design (?inp\<lparr>sink_ok := True\<rparr>) (init_state 0 []) = Inr s'"
    by (rule tick_succeeds [where butter = example_design, OF init_windows_ok _ example_design_ok])
      (simp_all add: channels_def)
  then obtain s' where t: "tick example_design (?inp\<lparr>sink_ok := True\<rparr>) (init_state 0 []) = Inr s'"
    by blast
  have due: "save_due ?inp (init_state 0 [])" and bad: "\<not> sink_ok ?inp"
    by (simp_all add: save_due_def init_state_def save_interval_def)
  from sink_failure_ends_loop [OF due bad, of example_design "[attempt 60]" "raw_buffers s'" "filtered_buffers s'"]
    tick_buffers [OF t]
  show ?thesis by simp
qed

theorem sink_failure_counterexample:
  "main_loop example_design (init_state 0 [])
     [attempt 5,
      Sample \<lparr>pulled_sample = [1, 2, 3, 4], pulled_timestamp = 20, clock_check = 20,
        clock_reset = 20, sink_ok = False\<rparr>,
      attempt 21, attempt 45] = Crashed OSError"
  by (simp add: eval_defs)

section \<open>The filter keeps no state\<close>

lemma filter_stream_pointwise:
  "filter_stream butter low high xs = Inr ys \<Longrightarrow>
   length ys = length xs \<and> (\<forall>n < length xs. filter_one butter (xs ! n) low high = Inr (ys ! n))"
proof (induction xs arbitrary: ys)
  case Nil
  then show ?case by simp
next
  case (Cons x xs)
  from Cons.prems obtain y ys1 where
    y: "filter_one butter x low high = Inr y" and
    r: "filter_stream butter low high xs = Inr ys1" and
    ys: "ys = y # ys1"
    by (auto split: sum.splits)
  from Cons.IH [OF r] y show ?case
    by (auto simp: ys nth_Cons split: nat.splits)
qed

text \<open>
  C1, as the script has it. The filter of a (channel, band) pair keeps no memory from one
  call to the next: line 89 starts the difference equation at rest on every call, so the
  output at step \<open>n\<close> is determined by the input at step \<open>n\<close> alone. Two streams
  that agree at step \<open>n\<close> give the same output there, whatever came before.
\<close>

theorem filter_stream_memoryless:
  assumes "filter_stream butter low high xs = Inr ys"
    and "filter_stream butter low high xs' = Inr ys'"
    and "n < length xs" "n < length xs'" "xs ! n = xs' ! n"
  shows "ys ! n = ys' ! n"
proof -
  from filter_stream_pointwise [OF assms(1)] assms(3)
  have "filter_one butter (xs ! n) low high = Inr (ys ! n)" by blast
  moreover from filter_stream_pointwise [OF assms(2)] assms(4)
  have "filter_one butter (xs' ! n) low high = Inr (ys' ! n)" by blast
  ultimately show ?thesis using assms(5) by simp
qed

lemma filter_one_example: "filter_one example_design x 4 8 = Inr (x / 4)"
  by (simp add: filter_one_def bandpass_filter_def example_design_def fs_def lfilter_single getitem_def)

theorem filter_stream_memoryless_witness:
  "filter_stream example_design 4 8 [1, 5] = Inr [1 / 4, 5 / 4] \<and>
   filter_stream example_design 4 8 [2, 5] = Inr [1 / 2, 5 / 4] \<and>
   [1 / 4, 5 / 4 :: real] ! 1 = [1 / 2, 5 / 4] ! 1"
proof -
  have a: "filter_stream example_design 4 8 [1, 5] = Inr [1 / 4, 5 / 4]"
    and b: "filter_stream example_design 4 8 [2, 5] = Inr [1 / 2, 5 / 4]"
    by (simp_all add: filter_one_example)
  from filter_stream_memoryless [OF a b, of 1] have "[1 / 4, 5 / 4 :: real] ! 1 = [1 / 2, 5 / 4] ! 1"
    by simp
  with a b show ?thesis by blast
qed

theorem filter_state_counterexample:
  "filter_stream example_design 4 8 [1, 0] = Inr [1 / 4, 0] \<and>
   causal_stream example_design 4 8 [1, 0] = Inr [1 / 4, 1 / 4]"
  by (simp add: filter_one_example causal_stream_def causal_construct_def causal_apply_def
      example_design_def fs_def zero_pad_def Let_def)

section \<open>What a single-sample call returns\<close>

text \<open>
  C10. On a one-element input \<open>[x]\<close> the function returns one value, \<open>b0 / a0 * x\<close>, with
  \<open>b0\<close> and \<open>a0\<close> the first numerator and denominator coefficients of the design for the
  band: it is a function of the arguments alone. The design routine returns the
  denominator normalised (\<open>a0 = 1\<close>), and the value is then \<open>b0 * x\<close>; line 89 pushes
  exactly this value.
\<close>

theorem bandpass_filter_single_sample:
  assumes "fs' \<noteq> 0"
    and "butter order (lowcut / (0.5 * fs')) (highcut / (0.5 * fs')) = Inr (b0 # bs, a0 # as)"
    and "a0 \<noteq> 0"
  shows "bandpass_filter butter [x] lowcut highcut fs' order = Inr [b0 / a0 * x] \<and>
         (a0 = 1 \<longrightarrow> bandpass_filter butter [x] lowcut highcut fs' order = Inr [b0 * x]) \<and>
         (a0 = 1 \<longrightarrow> fs' = fs \<longrightarrow> order = 4 \<longrightarrow> filter_one butter x lowcut highcut = Inr (b0 * x))"
proof -
  have 1: "bandpass_filter butter [x] lowcut highcut fs' order = Inr [b0 / a0 * x]"
    using assms by (simp add: bandpass_filter_def lfilter_single)
  then have "fs' = fs \<longrightarrow> order = 4 \<longrightarrow> filter_one butter x lowcut highcut = Inr (b0 / a0 * x)"
    by (auto simp: filter_one_def getitem_def)
  with 1 show ?thesis by auto
qed

theorem bandpass_filter_single_sample_witness:
  "bandpass_filter example_design [8] 4 8 256 4 = Inr [2] \<and>
   filter_one example_design 8 4 8 = Inr 2"
proof -
  have "example_design 4 (4 / (0.5 * 256)) (8 / (0.5 * 256)) = Inr (1 / 4 # [0, - 1 / 4], 1 # [- 1, 1 / 2])"
    by (simp add: example_design_def)
  from bandpass_filter_single_sample [where butter = example_design and fs' = 256 and x = 8, OF _ this]
  show ?thesis by (simp add: fs_def)
qed

section \<open>Which bands a call rejects\<close>

lemma has_scipy_check_example: "has_scipy_check example_design"
  by (simp add: has_scipy_check_def example_design_def)

lemma bandpass_filter_rate_zero:
  "bandpass_filter butter data lowcut highcut 0 order = Inl ZeroDivisionError"
  by (simp add: bandpass_filter_def)

lemma normalised_outside:
  fixes fs' lowcut highcut :: real
  assumes "0 < fs'" and "highcut \<le> lowcut \<or> lowcut \<le> 0 \<or> highcut \<le> 0 \<or> 0.5 * fs' \<le> highcut"
  shows "\<not> (0 < lowcut / (0.5 * fs') \<and> lowcut / (0.5 * fs') < highcut / (0.5 * fs') \<and>
            highcut / (0.5 * fs') < 1)"
proof -
  from assms(1) have n: "0 < 0.5 * fs'" by simp
  from assms(2) show ?thesis
    using n by (auto simp: divide_less_cancel zero_less_divide_iff pos_divide_less_eq)
qed

text \<open>
  C3, as the script has it. The script has no check of its own, no construction step
  and no InvalidBandError: the design routine is called inside every per-sample call.
  At a positive rate, a band with \<open>lowcut \<ge> highcut\<close>, a cutoff \<open>\<le> 0\<close> or
  \<open>highcut\<close> at or above the Nyquist frequency is rejected by the argument check of
  \<open>butter\<close>: the call raises that ValueError before \<open>lfilter\<close> runs, whatever the data,
  and so does the call of line 89 on every sample. At rate 0 the call raises the
  ZeroDivisionError of line 33 instead.
\<close>

theorem invalid_band_raises_in_call:
  assumes "has_scipy_check butter" and "0 < fs'"
    and "highcut \<le> lowcut \<or> lowcut \<le> 0 \<or> highcut \<le> 0 \<or> 0.5 * fs' \<le> highcut"
  shows "bandpass_filter butter data lowcut highcut fs' order = Inl ValueError \<and>
         (fs' = fs \<longrightarrow> filter_one butter x lowcut highcut = Inl ValueError \<and>
            filter_stream butter lowcut highcut (x # xs) = Inl ValueError) \<and>
         bandpass_filter butter data lowcut highcut 0 order = Inl ZeroDivisionError"
proof -
  from assms(1) normalised_outside [OF assms(2,3)]
  have b: "butter k (lowcut / (0.5 * fs')) (highcut / (0.5 * fs')) = Inl ValueError" for k
    unfolding has_scipy_check_def by blast
  have unf: "bandpass_filter butter d lowcut highcut fs' k =
      (case butter k (lowcut / (0.5 * fs')) (highcut / (0.5 * fs')) of
         Inl e \<Rightarrow> Inl e
       | Inr (b, a) \<Rightarrow> lfilter b a d)" for d k
    using assms(2) by (simp add: bandpass_filter_def)
  have 1: "bandpass_filter butter d lowcut highcut fs' k = Inl ValueError" for d k
    by (simp only: unf b sum.case)
  then have "fs' = fs \<longrightarrow> filter_one butter x lowcut highcut = Inl ValueError"
    by (auto simp: filter_one_def)
  then have "fs' = fs \<longrightarrow> filter_one butter x lowcut highcut = Inl ValueError \<and>
      filter_stream butter lowcut highcut (x # xs) = Inl ValueError"
    by auto
  with 1 bandpass_filter_rate_zero show ?thesis by blast
qed

theorem invalid_band_raises_in_call_witness:
  "bandpass_filter example_design [1] 10 5 256 4 = Inl ValueError \<and>
   bandpass_filter example_design [1] 4 130 256 4 = Inl ValueError \<and>
   filter_stream example_design 10 5 [1, 2] = Inl ValueError \<and>
   filter_stream example_design 4 130 [1, 2] = Inl ValueError"
proof -
  have r: "(0::real) < 256" "fs = 256" by (simp_all add: fs_def)
  from invalid_band_raises_in_call [OF has_scipy_check_example r(1), of 5 10 "[1]" 4 1 "[2]"]
    invalid_band_raises_in_call [OF has_scipy_check_example r(1), of 130 4 "[1]" 4 1 "[2]"]
  show ?thesis by (simp add: r(2))
qed

text \<open>
  The claim as it is written fails on three counts. The exception is the ValueError of
  the library, raised by the per-sample call: the first sample of a stream already
  raises it, and nothing fails before the loop calls the filter. At rate 0 a band at or
  above the Nyquist frequency raises ZeroDivisionError. At a negative rate, cutoffs
  \<open>\<le> 0\<close> with \<open>lowcut \<ge> highcut\<close> normalise to a band that passes the check, and
  the call returns.
\<close>

theorem band_validation_counterexample:
  "bandpass_filter example_design [1] 10 5 256 4 = Inl ValueError \<and>
   filter_stream example_design 10 5 [1, 2] = Inl ValueError \<and>
   bandpass_filter example_design [1] 4 8 0 4 = Inl ZeroDivisionError \<and>
   bandpass_filter example_design [1] (- 4) (- 8) (- 256) 4 = Inr [1 / 4]"
  by (simp add: bandpass_filter_def filter_one_def example_design_def fs_def lfilter_single)

section \<open>What the plot lines were given stays as it was\<close>


















section \<open>The rows of the CSV file\<close>

lemma latest_values_Inr:
  "latest_values fbs band chs = Inr vs \<Longrightarrow> length vs = length chs"
  by (induction chs arbitrary: vs) (auto split: option.splits sum.splits)

lemma extend_row_Inr:
  "extend_row fbs bands row = Inr r \<Longrightarrow>
   \<exists>vs. r = row @ map Flt vs \<and> length vs = length bands * length channels"
proof (induction bands arbitrary: row)
  case Nil
  then show ?case by simp
next
  case (Cons band bands)
  from Cons.prems obtain vs where
    v: "latest_values fbs band channels = Inr vs" and
    r: "extend_row fbs bands (row @ map Flt vs) = Inr r"
    by (auto split: sum.splits)
  from Cons.IH [OF r] obtain ws where
    "r = (row @ map Flt vs) @ map Flt ws" "length ws = length bands * length channels"
    by blast
  with latest_values_Inr [OF v] have
    "r = row @ map Flt (vs @ ws) \<and> length (vs @ ws) = length (band # bands) * length channels"
    by simp
  then show ?case by blast
qed

text \<open>A data row is the timestamp, then every reading of the sample, then one cell for
  each (band, channel) pair.\<close>

lemma data_row_Inr:
  assumes "data_row timestamp sample fbs = Inr row"
  shows "\<exists>vs. row = Flt (Num timestamp) # map (\<lambda>x. Flt (Num x)) sample @ map Flt vs \<and>
              length vs = length BANDS * length channels"
  using extend_row_Inr [OF assms [unfolded data_row_def]] by simp

lemma header_length: "length header = 1 + length channels + length BANDS * length channels"
proof -
  have "length (concat (map (\<lambda>band. map (\<lambda>ch. f band ch) channels) bs)) = length bs * length channels"
    for bs :: "string list" and f :: "string \<Rightarrow> string \<Rightarrow> cell"
    by (induction bs) simp_all
  from this [of "\<lambda>band ch. Str (band @ '' - '' @ ch)" "map fst BANDS"]
  show ?thesis by (simp add: header_def del: map_map)
qed

text \<open>The row has as many cells as the header exactly when the sample has one reading
  per configured channel.\<close>

lemma row_matches_header:
  assumes "data_row timestamp sample fbs = Inr row"
  shows "length row = length header \<longleftrightarrow> length sample = length channels"
  using data_row_Inr [OF assms] by (auto simp: header_length)

text \<open>Over a run, the file grows by the header (once, and only into an empty file) and by
  data rows; a data row starts with a number, the header with a string.\<close>

lemma tick_csv:
  assumes "tick butter inp s = Inr s'"
  shows "\<exists>rows. csvfile s' = csvfile s @ (if csvfile s = [] \<and> rows \<noteq> [] then [header] else []) @ rows \<and>
           (\<forall>r \<in> set rows. \<exists>t rest. r = Flt (Num t) # rest)"
proof (cases "save_due inp s")
  case True
  from tick_save(1) [OF assms True] obtain row where
    row: "data_row (pulled_timestamp inp) (pulled_sample inp) (filtered_buffers s') = Inr row" and
    csv: "csvfile s' = csvfile s @ (if csvfile s = [] then [header] else []) @ [row]"
    by blast
  from data_row_Inr [OF row] have "\<exists>t rest. row = Flt (Num t) # rest" by blast
  with csv show ?thesis by (intro exI [of _ "[row]"]) simp
next
  case False
  from tick_save(2) [OF assms False] show ?thesis by (intro exI [of _ "[]"]) simp
qed

lemma main_loop_csv:
  "state_of (main_loop butter s evs) = Some s' \<Longrightarrow>
   \<exists>rows. csvfile s' = csvfile s @ (if csvfile s = [] \<and> rows \<noteq> [] then [header] else []) @ rows \<and>
          (\<forall>r \<in> set rows. \<exists>t rest. r = Flt (Num t) # rest)"
proof (induction evs arbitrary: s)
  case Nil
  then show ?case by (intro exI [of _ "[]"]) (simp add: state_of_def)
next
  case (Cons ev evs)
  show ?case
  proof (cases ev)
    case Interrupt
    with Cons.prems show ?thesis by (intro exI [of _ "[]"]) (simp add: state_of_def)
  next
    case (Sample inp)
    with Cons.prems obtain s1 where t: "tick butter inp s = Inr s1"
      and r: "state_of (main_loop butter s1 evs) = Some s'"
      by (auto simp: state_of_def split: sum.splits)
    from tick_csv [OF t] obtain rows1 where
      1: "csvfile s1 = csvfile s @ (if csvfile s = [] \<and> rows1 \<noteq> [] then [header] else []) @ rows1"
      and d1: "\<forall>r \<in> set rows1. \<exists>t rest. r = Flt (Num t) # rest" by blast
    from Cons.IH [OF r] obtain rows2 where
      2: "csvfile s' = csvfile s1 @ (if csvfile s1 = [] \<and> rows2 \<noteq> [] then [header] else []) @ rows2"
      and d2: "\<forall>r \<in> set rows2. \<exists>t rest. r = Flt (Num t) # rest" by blast
    have "csvfile s' = csvfile s @ (if csvfile s = [] \<and> rows1 @ rows2 \<noteq> [] then [header] else []) @ rows1 @ rows2"
      using 1 2 by (auto split: if_splits)
    moreover have "\<forall>r \<in> set (rows1 @ rows2). \<exists>t rest. r = Flt (Num t) # rest"
      using d1 d2 by auto
    ultimately show ?thesis by blast
  qed
qed

text \<open>
  C7 at a sample of five readings (an EEG stream with an auxiliary channel), the file
  being empty and a save due: the script writes its 21-cell header and under it a row of
  22 cells, the timestamp, all five readings, and the sixteen filtered values.
\<close>

theorem csv_row_wider_than_header:
  "map_option csvfile
     (state_of (main_loop example_design (init_state 0 [])
        [Sample \<lparr>pulled_sample = [1, 2, 3, 4, 5], pulled_timestamp = 20, clock_check = 20,
           clock_reset = 20, sink_ok = True\<rparr>])) =
   Some [header,
     [Flt (Num 20), Flt (Num 1), Flt (Num 2), Flt (Num 3), Flt (Num 4), Flt (Num 5),
      Flt (Num (1 / 4)), Flt (Num (1 / 2)), Flt (Num (3 / 4)), Flt (Num 1),
      Flt (Num (1 / 4)), Flt (Num (1 / 2)), Flt (Num (3 / 4)), Flt (Num 1),
      Flt (Num (1 / 4)), Flt (Num (1 / 2)), Flt (Num (3 / 4)), Flt (Num 1),
      Flt (Num (1 / 4)), Flt (Num (1 / 2)), Flt (Num (3 / 4)), Flt (Num 1)]] \<and>
   length header = 21"
  by (simp add: eval_defs nth_append)

section \<open>What one iteration stores in each window\<close>

lemma update_raw_other:
  "update_raw sample ics rb = Inr rb' \<Longrightarrow> ch \<notin> snd ` set ics \<Longrightarrow> rb' ch = rb ch"
proof (induction ics arbitrary: rb)
  case Nil
  then show ?case by simp
next
  case (Cons ic ics)
  obtain i channel where ic: "ic = (i, channel)" by (cases ic)
  from Cons.prems obtain buf x where
    r: "update_raw sample ics (rb(channel \<mapsto> tl buf @ [Num x])) = Inr rb'"
    by (auto simp: ic roll_assign_eq getitem_nat split: option.splits if_splits sum.splits)
  from Cons.prems(2) have ne: "ch \<noteq> channel" and rest: "ch \<notin> snd ` set ics"
    by (auto simp: ic)
  from Cons.IH [OF r rest] have "rb' ch = (rb(channel \<mapsto> tl buf @ [Num x])) ch" .
  with ne show ?case by simp
qed

lemma update_raw_this:
  "update_raw sample ics rb = Inr rb' \<Longrightarrow> distinct (map snd ics) \<Longrightarrow> (i, ch) \<in> set ics \<Longrightarrow>
   \<exists>buf. rb ch = Some buf \<and> buf \<noteq> [] \<and> i < length sample \<and>
         rb' ch = Some (tl buf @ [Num (sample ! i)])"
proof (induction ics arbitrary: rb)
  case Nil
  then show ?case by simp
next
  case (Cons ic ics)
  obtain j channel where ic: "ic = (j, channel)" by (cases ic)
  from Cons.prems(1) obtain buf where
    b: "rb channel = Some buf" "buf \<noteq> []" "j < length sample" and
    r: "update_raw sample ics (rb(channel \<mapsto> tl buf @ [Num (sample ! j)])) = Inr rb'"
    by (auto simp: ic roll_assign_eq getitem_nat split: option.splits if_splits sum.splits)
  from Cons.prems(2) have d: "distinct (map snd ics)" and fresh: "channel \<notin> snd ` set ics"
    by (auto simp: ic)
  show ?case
  proof (cases "(i, ch) = (j, channel)")
    case True
    from update_raw_other [OF r fresh]
    have "rb' channel = Some (tl buf @ [Num (sample ! j)])" by simp
    with True b show ?thesis by simp
  next
    case False
    with Cons.prems(3) have m: "(i, ch) \<in> set ics" by (auto simp: ic)
    with fresh have ne: "ch \<noteq> channel" by force
    from Cons.IH [OF r d m] obtain buf' where
      "(rb(channel \<mapsto> tl buf @ [Num (sample ! j)])) ch = Some buf'" "buf' \<noteq> []"
      "i < length sample" "rb' ch = Some (tl buf' @ [Num (sample ! i)])"
      by blast
    with ne show ?thesis by simp
  qed
qed

lemma filter_channels_other_band:
  "filter_channels butter sample band low high ics fbs = Inr fbs' \<Longrightarrow> b \<noteq> band \<Longrightarrow> fbs' b = fbs b"
proof (induction ics arbitrary: fbs)
  case Nil
  then show ?case by simp
next
  case (Cons ic ics)
  obtain i channel where ic: "ic = (i, channel)" by (cases ic)
  from Cons.prems(1) obtain fb buf y where
    r: "filter_channels butter sample band low high ics (fbs(band \<mapsto> fb(channel \<mapsto> tl buf @ [Num y]))) = Inr fbs'"
    by (auto simp: ic roll_assign_eq getitem_nat split: option.splits if_splits sum.splits)
  from Cons.IH [OF r Cons.prems(2)]
  have "fbs' b = (fbs(band \<mapsto> fb(channel \<mapsto> tl buf @ [Num y]))) b" .
  with Cons.prems(2) show ?case by simp
qed

lemma filter_channels_other:
  "filter_channels butter sample band low high ics fbs = Inr fbs' \<Longrightarrow> ch \<notin> snd ` set ics \<Longrightarrow>
   fbs band = Some fb \<Longrightarrow> \<exists>fb'. fbs' band = Some fb' \<and> fb' ch = fb ch"
proof (induction ics arbitrary: fbs fb)
  case Nil
  then show ?case by simp
next
  case (Cons ic ics)
  obtain i channel where ic: "ic = (i, channel)" by (cases ic)
  from Cons.prems(1,3) obtain buf y where
    r: "filter_channels butter sample band low high ics (fbs(band \<mapsto> fb(channel \<mapsto> tl buf @ [Num y]))) = Inr fbs'"
    by (auto simp: ic roll_assign_eq getitem_nat split: option.splits if_splits sum.splits)
  from Cons.prems(2) have ne: "ch \<noteq> channel" and rest: "ch \<notin> snd ` set ics"
    by (auto simp: ic)
  have "(fbs(band \<mapsto> fb(channel \<mapsto> tl buf @ [Num y]))) band = Some (fb(channel \<mapsto> tl buf @ [Num y]))"
    by simp
  from Cons.IH [OF r rest this] obtain fb' where
    "fbs' band = Some fb'" "fb' ch = (fb(channel \<mapsto> tl buf @ [Num y])) ch" by blast
  with ne show ?case by simp
qed

lemma filter_channels_this:
  "filter_channels butter sample band low high ics fbs = Inr fbs' \<Longrightarrow> distinct (map snd ics) \<Longrightarrow>
   (i, ch) \<in> set ics \<Longrightarrow>
   \<exists>fb buf fb' y. fbs band = Some fb \<and> fb ch = Some buf \<and> buf \<noteq> [] \<and> i < length sample \<and>
      filter_one butter (sample ! i) low high = Inr y \<and>
      fbs' band = Some fb' \<and> fb' ch = Some (tl buf @ [Num y])"
proof (induction ics arbitrary: fbs)
  case Nil
  then show ?case by simp
next
  case (Cons ic ics)
  obtain j channel where ic: "ic = (j, channel)" by (cases ic)
  from Cons.prems(1) obtain fb buf y where
    b: "fbs band = Some fb" "fb channel = Some buf" "buf \<noteq> []" "j < length sample"
      "filter_one butter (sample ! j) low high = Inr y" and
    r: "filter_channels butter sample band low high ics (fbs(band \<mapsto> fb(channel \<mapsto> tl buf @ [Num y]))) = Inr fbs'"
    by (auto simp: ic roll_assign_eq getitem_nat split: option.splits if_splits sum.splits)
  let ?fb1 = "fb(channel \<mapsto> tl buf @ [Num y])"
  have up: "(fbs(band \<mapsto> ?fb1)) band = Some ?fb1" by simp
  from Cons.prems(2) have d: "distinct (map snd ics)" and fresh: "channel \<notin> snd ` set ics"
    by (auto simp: ic)
  show ?case
  proof (cases "(i, ch) = (j, channel)")
    case True
    from filter_channels_other [OF r fresh up] obtain fb' where
      "fbs' band = Some fb'" "fb' channel = ?fb1 channel" by blast
    with True b show ?thesis by simp
  next
    case False
    with Cons.prems(3) have m: "(i, ch) \<in> set ics" by (auto simp: ic)
    with fresh have ne: "ch \<noteq> channel" by force
    from Cons.IH [OF r d m] obtain fb2 buf2 fb' y2 where
      "(fbs(band \<mapsto> ?fb1)) band = Some fb2" "fb2 ch = Some buf2" "buf2 \<noteq> []" "i < length sample"
      "filter_one butter (sample ! i) low high = Inr y2"
      "fbs' band = Some fb'" "fb' ch = Some (tl buf2 @ [Num y2])"
      by blast
    with ne b show ?thesis by auto
  qed
qed

lemma filter_bands_other_band:
  "filter_bands butter sample bands fbs = Inr fbs' \<Longrightarrow> b \<notin> fst ` set bands \<Longrightarrow> fbs' b = fbs b"
proof (induction bands arbitrary: fbs)
  case Nil
  then show ?case by simp
next
  case (Cons bd bands)
  obtain band low high where bd: "bd = (band, low, high)" by (cases bd)
  from Cons.prems(1) obtain fbs1 where
    1: "filter_channels butter sample band low high (enumerate 0 channels) fbs = Inr fbs1" and
    2: "filter_bands butter sample bands fbs1 = Inr fbs'"
    by (auto simp: bd split: sum.splits)
  from Cons.prems(2) have "b \<noteq> band" "b \<notin> fst ` set bands" by (auto simp: bd)
  with Cons.IH [OF 2] filter_channels_other_band [OF 1] show ?case by simp
qed

lemma filter_bands_this:
  "filter_bands butter sample bands fbs = Inr fbs' \<Longrightarrow> distinct (map fst bands) \<Longrightarrow>
   (band, low, high) \<in> set bands \<Longrightarrow> i < length channels \<Longrightarrow> distinct channels \<Longrightarrow>
   \<exists>fb buf fb' y. fbs band = Some fb \<and> fb (channels ! i) = Some buf \<and> buf \<noteq> [] \<and> i < length sample \<and>
      filter_one butter (sample ! i) low high = Inr y \<and>
      fbs' band = Some fb' \<and> fb' (channels ! i) = Some (tl buf @ [Num y])"
proof (induction bands arbitrary: fbs)
  case Nil
  then show ?case by simp
next
  case (Cons bd bands)
  obtain b l h where bd: "bd = (b, l, h)" by (cases bd)
  from Cons.prems(1) obtain fbs1 where
    1: "filter_channels butter sample b l h (enumerate 0 channels) fbs = Inr fbs1" and
    2: "filter_bands butter sample bands fbs1 = Inr fbs'"
    by (auto simp: bd split: sum.splits)
  from Cons.prems(2) have d: "distinct (map fst bands)" and fresh: "b \<notin> fst ` set bands"
    by (auto simp: bd)
  show ?case
  proof (cases "(band, low, high) = (b, l, h)")
    case True
    have m: "(i, channels ! i) \<in> set (enumerate 0 channels)"
      using Cons.prems(4) by (simp add: in_set_enumerate_eq)
    have dc: "distinct (map snd (enumerate 0 channels))"
      using Cons.prems(5) by simp
    from filter_channels_this [OF 1 dc m] filter_bands_other_band [OF 2 fresh] True
    show ?thesis by auto
  next
    case False
    with Cons.prems(3) have m: "(band, low, high) \<in> set bands" by (auto simp: bd)
    with fresh have "band \<noteq> b" by force
    with filter_channels_other_band [OF 1, of band] Cons.IH [OF 2 d m Cons.prems(4,5)]
    show ?thesis by simp
  qed
qed

lemma distinct_channels: "distinct channels"
  by (simp add: channels_def)

lemma distinct_band_names: "distinct (map fst BANDS)"
  by (simp add: BANDS_def)

text \<open>
  One iteration appends to the raw window of channel \<open>i\<close> the reading \<open>sample[i]\<close>, and
  to the window of (band, channel \<open>i\<close>) the value of the single-sample filter call on
  that reading, each time dropping the oldest cell; nothing of the state enters the
  value that is stored.
\<close>

lemma tick_stores:
  assumes "tick butter inp s = Inr s'" "i < length channels"
  shows "\<exists>buf. raw_buffers s (channels ! i) = Some buf \<and> buf \<noteq> [] \<and> i < length (pulled_sample inp) \<and>
           raw_buffers s' (channels ! i) = Some (tl buf @ [Num (pulled_sample inp ! i)])"
    and "(band, low, high) \<in> set BANDS \<Longrightarrow>
         \<exists>fb buf fb' y. filtered_buffers s band = Some fb \<and> fb (channels ! i) = Some buf \<and> buf \<noteq> [] \<and>
           filter_one butter (pulled_sample inp ! i) low high = Inr y \<and>
           filtered_buffers s' band = Some fb' \<and> fb' (channels ! i) = Some (tl buf @ [Num y])"
proof -
  have m: "(i, channels ! i) \<in> set (enumerate 0 channels)"
    using assms(2) by (simp add: in_set_enumerate_eq)
  have dc: "distinct (map snd (enumerate 0 channels))"
    using distinct_channels by simp
  from update_raw_this [OF tick_buffers(1) [OF assms(1)] dc m]
  show "\<exists>buf. raw_buffers s (channels ! i) = Some buf \<and> buf \<noteq> [] \<and> i < length (pulled_sample inp) \<and>
           raw_buffers s' (channels ! i) = Some (tl buf @ [Num (pulled_sample inp ! i)])"
    by blast
  assume "(band, low, high) \<in> set BANDS"
  from filter_bands_this [OF tick_buffers(2) [OF assms(1)] distinct_band_names this assms(2) distinct_channels]
  show "\<exists>fb buf fb' y. filtered_buffers s band = Some fb \<and> fb (channels ! i) = Some buf \<and> buf \<noteq> [] \<and>
           filter_one butter (pulled_sample inp ! i) low high = Inr y \<and>
           filtered_buffers s' band = Some fb' \<and> fb' (channels ! i) = Some (tl buf @ [Num y])"
    by blast
qed


text \<open>
  So over a run that is still going, the raw window of channel \<open>i\<close> is the initial window
  after \<open>roll_assign_all\<close> of the channel's readings, and the window of (band, channel
  \<open>i\<close>) is the initial window after \<open>roll_assign_all\<close> of what \<open>filter_stream\<close> returns
  on those readings.
\<close>

lemma sample_of_simps:
  "sample_of (Sample inp) = Some (pulled_sample inp)" "sample_of Interrupt = None"
  by (simp_all add: sample_of_def)

lemma main_loop_raw_window:
  "main_loop butter s evs = Running s' \<Longrightarrow> i < length channels \<Longrightarrow>
   raw_buffers s (channels ! i) = Some buf0 \<Longrightarrow>
   \<exists>buf. raw_buffers s' (channels ! i) = Some buf \<and>
         roll_assign_all buf0 (map (\<lambda>sm. Num (sm ! i)) (List.map_filter sample_of evs)) = Inr buf"
proof (induction evs arbitrary: s buf0)
  case Nil
  then show ?case by (simp add: List.map_filter_simps)
next
  case (Cons ev evs)
  show ?case
  proof (cases ev)
    case Interrupt
    with Cons.prems show ?thesis by simp
  next
    case (Sample inp)
    with Cons.prems(1) obtain s1 where t: "tick butter inp s = Inr s1"
      and r: "main_loop butter s1 evs = Running s'"
      by (auto split: sum.splits)
    from tick_stores(1) [OF t Cons.prems(2)] Cons.prems(3)
    have ne: "buf0 \<noteq> []"
      and s1: "raw_buffers s1 (channels ! i) = Some (tl buf0 @ [Num (pulled_sample inp ! i)])"
      by auto
    from Cons.IH [OF r Cons.prems(2) s1] obtain buf where
      "raw_buffers s' (channels ! i) = Some buf"
      "roll_assign_all (tl buf0 @ [Num (pulled_sample inp ! i)])
         (map (\<lambda>sm. Num (sm ! i)) (List.map_filter sample_of evs)) = Inr buf"
      by blast
    with ne Sample show ?thesis
      by (simp add: List.map_filter_simps sample_of_simps roll_assign_eq)
  qed
qed

lemma main_loop_filtered_window:
  "main_loop butter s evs = Running s' \<Longrightarrow> i < length channels \<Longrightarrow> (band, low, high) \<in> set BANDS \<Longrightarrow>
   filtered_buffers s band = Some fb0 \<Longrightarrow> fb0 (channels ! i) = Some buf0 \<Longrightarrow>
   \<exists>fb buf ys. filtered_buffers s' band = Some fb \<and> fb (channels ! i) = Some buf \<and>
      filter_stream butter low high (map (\<lambda>sm. sm ! i) (List.map_filter sample_of evs)) = Inr ys \<and>
      roll_assign_all buf0 (map Num ys) = Inr buf"
proof (induction evs arbitrary: s fb0 buf0)
  case Nil
  then show ?case by (simp add: List.map_filter_simps)
next
  case (Cons ev evs)
  show ?case
  proof (cases ev)
    case Interrupt
    with Cons.prems show ?thesis by simp
  next
    case (Sample inp)
    with Cons.prems(1) obtain s1 where t: "tick butter inp s = Inr s1"
      and r: "main_loop butter s1 evs = Running s'"
      by (auto split: sum.splits)
    from tick_stores(2) [OF t Cons.prems(2,3)] Cons.prems(4,5) obtain fb1 y where
      ne: "buf0 \<noteq> []" and y: "filter_one butter (pulled_sample inp ! i) low high = Inr y" and
      s1: "filtered_buffers s1 band = Some fb1" "fb1 (channels ! i) = Some (tl buf0 @ [Num y])"
      by auto
    from Cons.IH [OF r Cons.prems(2,3) s1] obtain fb buf ys where
      "filtered_buffers s' band = Some fb" "fb (channels ! i) = Some buf"
      "filter_stream butter low high (map (\<lambda>sm. sm ! i) (List.map_filter sample_of evs)) = Inr ys"
      "roll_assign_all (tl buf0 @ [Num y]) (map Num ys) = Inr buf"
      by blast
    with ne y Sample show ?thesis
      by (simp add: List.map_filter_simps sample_of_simps roll_assign_eq)
  qed
qed

section \<open>The heap model and the value model agree\<close>

lemma refs_allocatedD:
  assumes "refs_allocated s"
  shows "raw_refs s ch = Some p \<Longrightarrow> p < next_addr s"
    and "filtered_refs s band = Some fr \<Longrightarrow> fr ch = Some p \<Longrightarrow> p < next_addr s"
  using assms unfolding refs_allocated_def by blast+

lemma heap_old:
  assumes "heap s3 = (heap s)(next_addr s := arr)" "p < next_addr s"
  shows "heap s3 p = heap s p"
  using assms by simp

lemma store_last_rolled:
  assumes "heap s1 q = np_roll buf (- 1)"
  shows "store_last q v s1 =
     (case roll_assign buf v of Inl e \<Rightarrow> Inl e | Inr arr \<Rightarrow> Inr (s1\<lparr>heap := (heap s1)(q := arr)\<rparr>))"
  using assms by (simp add: store_last_def roll_assign_def)

lemma raw_step_view:
  assumes ok: "refs_allocated s"
    and h: "heap s3 = (heap s)(next_addr s := arr)" and n: "next_addr s3 = Suc (next_addr s)"
    and r: "raw_refs s3 = (raw_refs s)(channel \<mapsto> next_addr s)"
    and f: "filtered_refs s3 = filtered_refs s"
  shows "raw_view s3 = (raw_view s)(channel \<mapsto> arr)"
    and "filtered_view s3 = filtered_view s"
    and "refs_allocated s3"
proof -
  show "raw_view s3 = (raw_view s)(channel \<mapsto> arr)"
  proof
    fix ch
    show "raw_view s3 ch = ((raw_view s)(channel \<mapsto> arr)) ch"
    proof (cases "raw_refs s ch")
      case None
      then show ?thesis by (simp add: raw_view_def r h)
    next
      case (Some p)
      from heap_old [OF h refs_allocatedD(1) [OF ok Some]] Some show ?thesis
        by (simp add: raw_view_def r h)
    qed
  qed
  show "filtered_view s3 = filtered_view s"
  proof
    fix band
    show "filtered_view s3 band = filtered_view s band"
    proof (cases "filtered_refs s band")
      case None
      then show ?thesis by (simp add: filtered_view_def f)
    next
      case (Some fr)
      have "map_option (heap s3) (fr ch) = map_option (heap s) (fr ch)" for ch
      proof (cases "fr ch")
        case None
        then show ?thesis by simp
      next
        case (Some p)
        from heap_old [OF h refs_allocatedD(2) [OF ok \<open>filtered_refs s band = Some fr\<close> Some]] Some
        show ?thesis by simp
      qed
      then show ?thesis by (simp add: filtered_view_def f Some)
    qed
  qed
  show "refs_allocated s3"
    unfolding refs_allocated_def n r f
    using refs_allocatedD [OF ok] by (auto simp: less_Suc_eq split: if_splits)
qed

lemma filtered_step_view:
  assumes ok: "refs_allocated s"
    and fr: "filtered_refs s band = Some fr"
    and h: "heap s3 = (heap s)(next_addr s := arr)" and n: "next_addr s3 = Suc (next_addr s)"
    and r: "raw_refs s3 = raw_refs s"
    and f: "filtered_refs s3 = (filtered_refs s)(band \<mapsto> fr(channel \<mapsto> next_addr s))"
  shows "raw_view s3 = raw_view s"
    and "\<exists>fb. filtered_view s band = Some fb \<and>
           filtered_view s3 = (filtered_view s)(band \<mapsto> fb(channel \<mapsto> arr))"
    and "refs_allocated s3"
proof -
  show "raw_view s3 = raw_view s"
  proof
    fix ch
    show "raw_view s3 ch = raw_view s ch"
    proof (cases "raw_refs s ch")
      case None
      then show ?thesis by (simp add: raw_view_def r)
    next
      case (Some p)
      from heap_old [OF h refs_allocatedD(1) [OF ok Some]] Some show ?thesis
        by (simp add: raw_view_def r)
    qed
  qed
  let ?fb = "\<lambda>ch. map_option (heap s) (fr ch)"
  have same: "map_option (heap s3) (g ch) = map_option (heap s) (g ch)"
    if g: "filtered_refs s b = Some g" for b g ch
  proof (cases "g ch")
    case None
    then show ?thesis by simp
  next
    case (Some p)
    from heap_old [OF h refs_allocatedD(2) [OF ok g Some]] Some show ?thesis by simp
  qed
  have "filtered_view s3 = (filtered_view s)(band \<mapsto> ?fb(channel \<mapsto> arr))"
  proof
    fix b
    show "filtered_view s3 b = ((filtered_view s)(band \<mapsto> ?fb(channel \<mapsto> arr))) b"
    proof (cases "b = band")
      case True
      have "(\<lambda>ch. map_option (heap s3) ((fr(channel \<mapsto> next_addr s)) ch)) = ?fb(channel \<mapsto> arr)"
      proof
        fix ch
        show "map_option (heap s3) ((fr(channel \<mapsto> next_addr s)) ch) = (?fb(channel \<mapsto> arr)) ch"
          using same [OF fr, of ch] by (simp add: h)
      qed
      then show ?thesis by (simp add: filtered_view_def f True)
    next
      case False
      show ?thesis
      proof (cases "filtered_refs s b")
        case None
        with False show ?thesis by (simp add: filtered_view_def f)
      next
        case (Some g)
        with False same [OF Some] show ?thesis by (simp add: filtered_view_def f)
      qed
    qed
  qed
  moreover have "filtered_view s band = Some ?fb"
    by (simp add: filtered_view_def fr)
  ultimately show "\<exists>fb. filtered_view s band = Some fb \<and>
           filtered_view s3 = (filtered_view s)(band \<mapsto> fb(channel \<mapsto> arr))"
    by blast
  show "refs_allocated s3"
    unfolding refs_allocated_def n r f
    using refs_allocatedD [OF ok] fr by (auto simp: less_Suc_eq split: if_splits)
qed


text \<open>
  The loops of the heap model raise where the loops of the value model raise, with the
  same exception, and otherwise leave on the heap the buffers the value model computes.
\<close>

lemma plot_update_raw_refines:
  "refs_allocated s \<Longrightarrow>
   (case plot_update_raw sample ics s of
      Inl e \<Rightarrow> update_raw sample ics (raw_view s) = Inl e
    | Inr s' \<Rightarrow> update_raw sample ics (raw_view s) = Inr (raw_view s') \<and>
        filtered_view s' = filtered_view s \<and> refs_allocated s')"
proof (induction ics arbitrary: s)
  case Nil
  then show ?case by simp
next
  case (Cons ic ics)
  obtain i channel where ic: "ic = (i, channel)" by (cases ic)
  show ?case
  proof (cases "raw_refs s channel")
    case None
    then have "raw_view s channel = None" by (simp add: raw_view_def)
    with None show ?thesis by (simp add: ic)
  next
    case (Some p)
    then have rv: "raw_view s channel = Some (heap s p)" by (simp add: raw_view_def)
    show ?thesis
    proof (cases "getitem sample (int i)")
      case (Inl e)
      with Some rv show ?thesis by (simp add: ic new_array_def)
    next
      case (Inr x)
      note x = this
      let ?q = "next_addr s"
      let ?s1 = "s\<lparr>heap := (heap s)(?q := np_roll (heap s p) (- 1)), next_addr := Suc ?q,
                   raw_refs := (raw_refs s)(channel \<mapsto> ?q)\<rparr>"
      have st: "store_last ?q (Num x) ?s1 =
          (case roll_assign (heap s p) (Num x) of
             Inl e \<Rightarrow> Inl e
           | Inr arr \<Rightarrow> Inr (?s1\<lparr>heap := (heap ?s1)(?q := arr)\<rparr>))"
        by (rule store_last_rolled) simp
      show ?thesis
      proof (cases "roll_assign (heap s p) (Num x)")
        case (Inl e)
        with Some rv x st show ?thesis by (simp add: ic new_array_def)
      next
        case (Inr arr)
        define s3 where "s3 = set_data (RawLine i) ?q (?s1\<lparr>heap := (heap ?s1)(?q := arr)\<rparr>)"
        have lhs: "plot_update_raw sample (ic # ics) s = plot_update_raw sample ics s3"
          using Some x st Inr by (simp add: ic new_array_def s3_def)
        have f3: "heap s3 = (heap s)(?q := arr)" "next_addr s3 = Suc ?q"
          "raw_refs s3 = (raw_refs s)(channel \<mapsto> ?q)" "filtered_refs s3 = filtered_refs s"
          by (simp_all add: s3_def set_data_def)
        note v = raw_step_view [OF Cons.prems f3]
        have rhs: "update_raw sample (ic # ics) (raw_view s) = update_raw sample ics (raw_view s3)"
          using rv x Inr by (simp add: ic v(1))
        from Cons.IH [OF v(3)] show ?thesis
          unfolding lhs rhs by (simp add: v(2) split: sum.splits)
      qed
    qed
  qed
qed

lemma plot_filter_channels_refines:
  "refs_allocated s \<Longrightarrow>
   (case plot_filter_channels butter sample band low high ics s of
      Inl e \<Rightarrow> filter_channels butter sample band low high ics (filtered_view s) = Inl e
    | Inr s' \<Rightarrow>
        filter_channels butter sample band low high ics (filtered_view s) = Inr (filtered_view s') \<and>
        raw_view s' = raw_view s \<and> refs_allocated s')"
proof (induction ics arbitrary: s)
  case Nil
  then show ?case by simp
next
  case (Cons ic ics)
  obtain i channel where ic: "ic = (i, channel)" by (cases ic)
  show ?case
  proof (cases "getitem sample (int i)")
    case (Inl e)
    then show ?thesis by (simp add: ic)
  next
    case (Inr x)
    note x = this
    show ?thesis
    proof (cases "filter_one butter x low high")
      case (Inl e)
      with x show ?thesis by (simp add: ic)
    next
      case (Inr y)
      note y = this
      show ?thesis
      proof (cases "filtered_refs s band")
        case None
        then have "filtered_view s band = None" by (simp add: filtered_view_def)
        with None x y show ?thesis by (simp add: ic)
      next
        case (Some fr)
        note fr = this
        then have fv: "filtered_view s band = Some (\<lambda>ch. map_option (heap s) (fr ch))"
          by (simp add: filtered_view_def)
        show ?thesis
        proof (cases "fr channel")
          case None
          with fr fv x y show ?thesis by (simp add: ic)
        next
          case (Some p)
          let ?q = "next_addr s"
          let ?s1 = "s\<lparr>heap := (heap s)(?q := np_roll (heap s p) (- 1)), next_addr := Suc ?q,
                       filtered_refs := (filtered_refs s)(band \<mapsto> fr(channel \<mapsto> ?q))\<rparr>"
          have st: "store_last ?q (Num y) ?s1 =
              (case roll_assign (heap s p) (Num y) of
                 Inl e \<Rightarrow> Inl e
               | Inr arr \<Rightarrow> Inr (?s1\<lparr>heap := (heap ?s1)(?q := arr)\<rparr>))"
            by (rule store_last_rolled) simp
          show ?thesis
          proof (cases "roll_assign (heap s p) (Num y)")
            case (Inl e)
            with fr fv Some x y st show ?thesis by (simp add: ic new_array_def)
          next
            case (Inr arr)
            define s3 where
              "s3 = set_data (FilteredLine band i) ?q (?s1\<lparr>heap := (heap ?s1)(?q := arr)\<rparr>)"
            have lhs: "plot_filter_channels butter sample band low high (ic # ics) s =
                plot_filter_channels butter sample band low high ics s3"
              using fr Some x y st Inr by (simp add: ic new_array_def s3_def)
            have f3: "heap s3 = (heap s)(?q := arr)" "next_addr s3 = Suc ?q"
              "raw_refs s3 = raw_refs s"
              "filtered_refs s3 = (filtered_refs s)(band \<mapsto> fr(channel \<mapsto> ?q))"
              by (simp_all add: s3_def set_data_def)
            note v = filtered_step_view [OF Cons.prems fr f3]
            from v(2) fv have v2: "filtered_view s3 =
                (filtered_view s)(band \<mapsto> (\<lambda>ch. map_option (heap s) (fr ch))(channel \<mapsto> arr))"
              by auto
            have rhs: "filter_channels butter sample band low high (ic # ics) (filtered_view s) =
                filter_channels butter sample band low high ics (filtered_view s3)"
              using fv Some x y Inr by (simp add: ic v2)
            from Cons.IH [OF v(3)] show ?thesis
              unfolding lhs rhs by (simp add: v(1) split: sum.splits)
          qed
        qed
      qed
    qed
  qed
qed

lemma plot_filter_bands_refines:
  "refs_allocated s \<Longrightarrow>
   (case plot_filter_bands butter sample bands s of
      Inl e \<Rightarrow> filter_bands butter sample bands (filtered_view s) = Inl e
    | Inr s' \<Rightarrow>
        filter_bands butter sample bands (filtered_view s) = Inr (filtered_view s') \<and>
        raw_view s' = raw_view s \<and> refs_allocated s')"
proof (induction bands arbitrary: s)
  case Nil
  then show ?case by simp
next
  case (Cons bd bands)
  obtain band low high where bd: "bd = (band, low, high)" by (cases bd)
  note c = plot_filter_channels_refines [OF Cons.prems, of butter sample band low high "enumerate 0 channels"]
  show ?case
  proof (cases "plot_filter_channels butter sample band low high (enumerate 0 channels) s")
    case (Inl e)
    with c show ?thesis by (simp add: bd)
  next
    case (Inr s1)
    with c have 1: "filter_channels butter sample band low high (enumerate 0 channels) (filtered_view s) =
        Inr (filtered_view s1)" and r1: "raw_view s1 = raw_view s" and ok1: "refs_allocated s1"
      by simp_all
    from Cons.IH [OF ok1] show ?thesis
      by (simp add: bd Inr 1 r1 split: sum.splits)
  qed
qed

text \<open>One iteration: the heap model's buffers are the value model's.\<close>

lemma plot_tick_refines:
  assumes "refs_allocated s"
  shows "case plot_tick butter sample s of
      Inl e \<Rightarrow>
        (case update_raw sample (enumerate 0 channels) (raw_view s) of
           Inl e' \<Rightarrow> e' = e
         | Inr rb \<Rightarrow> filter_bands butter sample BANDS (filtered_view s) = Inl e)
    | Inr s' \<Rightarrow>
        update_raw sample (enumerate 0 channels) (raw_view s) = Inr (raw_view s') \<and>
        filter_bands butter sample BANDS (filtered_view s) = Inr (filtered_view s') \<and>
        refs_allocated s'"
proof (cases "plot_update_raw sample (enumerate 0 channels) s")
  case (Inl e)
  with plot_update_raw_refines [OF assms, of sample "enumerate 0 channels"]
  show ?thesis by (simp add: plot_tick_def)
next
  case (Inr s1)
  with plot_update_raw_refines [OF assms, of sample "enumerate 0 channels"]
  have 1: "update_raw sample (enumerate 0 channels) (raw_view s) = Inr (raw_view s1)"
    and f1: "filtered_view s1 = filtered_view s" and ok1: "refs_allocated s1"
    by simp_all
  from plot_filter_bands_refines [OF ok1, of butter sample BANDS]
  show ?thesis
    by (simp add: plot_tick_def Inr 1 f1 split: sum.splits)
qed


text \<open>At the start: the arrays of lines 41 and 42 are those of \<open>init_state\<close>.\<close>

lemma dict_of_eq: "dict_of keys f k = (if k \<in> set keys then Some (f k) else None)"
proof -
  have "\<And>m. foldl (\<lambda>m k. m(k \<mapsto> f k)) m keys k = (if k \<in> set keys then Some (f k) else m k)"
    by (induction keys) auto
  then show ?thesis by (simp add: dict_of_def)
qed

lemma alloc_dict_Cons:
  "alloc_dict (k0 # ks) m s =
     alloc_dict ks (m(k0 \<mapsto> next_addr s))
       (s\<lparr>heap := (heap s)(next_addr s := np_full buffer_size NaN), next_addr := Suc (next_addr s)\<rparr>)"
  by (simp add: new_array_def)

lemma alloc_dict_facts:
  "alloc_dict ks m s = (m', s') \<Longrightarrow>
   next_addr s \<le> next_addr s' \<and>
   (\<forall>p < next_addr s. heap s' p = heap s p) \<and>
   (\<forall>k \<in> set ks. \<exists>q. m' k = Some q \<and> next_addr s \<le> q \<and> q < next_addr s' \<and>
       heap s' q = np_full buffer_size NaN) \<and>
   (\<forall>k. k \<notin> set ks \<longrightarrow> m' k = m k) \<and>
   raw_refs s' = raw_refs s \<and> filtered_refs s' = filtered_refs s"
proof (induction ks arbitrary: m s)
  case Nil
  then show ?case by simp
next
  case (Cons k0 ks)
  let ?q = "next_addr s"
  let ?s1 = "s\<lparr>heap := (heap s)(?q := np_full buffer_size NaN), next_addr := Suc ?q\<rparr>"
  from Cons.prems have r: "alloc_dict ks (m(k0 \<mapsto> ?q)) ?s1 = (m', s')"
    unfolding alloc_dict_Cons .
  note IH = Cons.IH [OF r]
  from IH have n: "Suc ?q \<le> next_addr s'" by simp
  from IH have old: "heap s' p = heap ?s1 p" if "p < Suc ?q" for p
    using that by simp
  from IH have others: "m' k = (m(k0 \<mapsto> ?q)) k" if "k \<notin> set ks" for k
    using that by blast
  have "\<exists>q. m' k = Some q \<and> ?q \<le> q \<and> q < next_addr s' \<and> heap s' q = np_full buffer_size NaN"
    if k: "k \<in> set (k0 # ks)" for k
  proof (cases "k \<in> set ks")
    case True
    with IH obtain q where "m' k = Some q" "Suc ?q \<le> q" "q < next_addr s'"
      "heap s' q = np_full buffer_size NaN"
      by auto
    then show ?thesis by auto
  next
    case False
    with k have "k = k0" by simp
    with others [OF False] have "m' k = Some ?q" by simp
    moreover from old [of ?q] have "heap s' ?q = np_full buffer_size NaN" by simp
    ultimately show ?thesis using n by auto
  qed
  moreover have "heap s' p = heap s p" if "p < ?q" for p
    using old [of p] that by simp
  moreover have "m' k = m k" if "k \<notin> set (k0 # ks)" for k
    using others [of k] that by simp
  moreover from IH have "raw_refs s' = raw_refs s" "filtered_refs s' = filtered_refs s"
    by simp_all
  ultimately show ?case using n by auto
qed


lemma alloc_bands_facts:
  "alloc_bands bs m s = (m', s') \<Longrightarrow>
   next_addr s \<le> next_addr s' \<and>
   (\<forall>p < next_addr s. heap s' p = heap s p) \<and>
   (\<forall>b \<in> set bs. \<exists>d. m' b = Some d \<and>
       (\<forall>ch \<in> set channels. \<exists>q. d ch = Some q \<and> q < next_addr s' \<and>
           heap s' q = np_full buffer_size NaN) \<and>
       (\<forall>ch. ch \<notin> set channels \<longrightarrow> d ch = None)) \<and>
   (\<forall>b. b \<notin> set bs \<longrightarrow> m' b = m b) \<and>
   raw_refs s' = raw_refs s \<and> filtered_refs s' = filtered_refs s"
proof (induction bs arbitrary: m s)
  case Nil
  then show ?case by simp
next
  case (Cons band bands)
  obtain d s1 where a: "alloc_dict channels Map.empty s = (d, s1)"
    by (cases "alloc_dict channels Map.empty s")
  with Cons.prems have r: "alloc_bands bands (m(band \<mapsto> d)) s1 = (m', s')" by simp
  note D = alloc_dict_facts [OF a]
  note IH = Cons.IH [OF r]
  from D IH have n: "next_addr s \<le> next_addr s1" "next_addr s1 \<le> next_addr s'" by simp_all
  from IH have old: "heap s' p = heap s1 p" if "p < next_addr s1" for p
    using that by simp
  from IH have others: "m' b = (m(band \<mapsto> d)) b" if "b \<notin> set bands" for b
    using that by blast
  have dch: "\<exists>q. d ch = Some q \<and> q < next_addr s' \<and> heap s' q = np_full buffer_size NaN"
    if "ch \<in> set channels" for ch
  proof -
    from D that obtain q where "d ch = Some q" "q < next_addr s1" "heap s1 q = np_full buffer_size NaN"
      by blast
    with old [of q] n show ?thesis by auto
  qed
  from D have dnone: "d ch = None" if "ch \<notin> set channels" for ch
    using that by simp
  have "\<exists>d'. m' b = Some d' \<and>
       (\<forall>ch \<in> set channels. \<exists>q. d' ch = Some q \<and> q < next_addr s' \<and>
           heap s' q = np_full buffer_size NaN) \<and>
       (\<forall>ch. ch \<notin> set channels \<longrightarrow> d' ch = None)"
    if b: "b \<in> set (band # bands)" for b
  proof (cases "b \<in> set bands")
    case True
    with IH show ?thesis by blast
  next
    case False
    with b have "b = band" by simp
    with others [OF False] have "m' b = Some d" by simp
    with dch dnone show ?thesis by blast
  qed
  moreover have "heap s' p = heap s p" if "p < next_addr s" for p
  proof -
    from that n have "p < next_addr s1" by simp
    from old [OF this] D that show ?thesis by simp
  qed
  moreover have "m' b = m b" if "b \<notin> set (band # bands)" for b
    using others [of b] that by simp
  moreover from IH D have "raw_refs s' = raw_refs s" "filtered_refs s' = filtered_refs s"
    by simp_all
  ultimately show ?case using n by auto
qed

lemma plot_init_refines:
  "raw_view plot_init = raw_buffers (init_state now csv0)"
  "filtered_view plot_init = filtered_buffers (init_state now csv0)"
  "refs_allocated plot_init"
proof -
  let ?s0 = "\<lparr>heap = (\<lambda>p. []), next_addr = 0, raw_refs = Map.empty, filtered_refs = Map.empty,
              published = []\<rparr>"
  obtain rr s1 where 1: "alloc_dict channels Map.empty ?s0 = (rr, s1)"
    by (cases "alloc_dict channels Map.empty ?s0")
  obtain fr s2 where 2: "alloc_bands (map fst BANDS) Map.empty s1 = (fr, s2)"
    by (cases "alloc_bands (map fst BANDS) Map.empty s1")
  have init: "plot_init = s2\<lparr>raw_refs := rr, filtered_refs := fr\<rparr>"
    by (simp add: plot_init_def 1 2)
  note D = alloc_dict_facts [OF 1]
  note B = alloc_bands_facts [OF 2]
  from B have old: "heap s2 p = heap s1 p" if "p < next_addr s1" for p
    using that by simp
  have rr_in: "\<exists>q. rr ch = Some q \<and> q < next_addr s2 \<and> heap s2 q = np_full buffer_size NaN"
    if "ch \<in> set channels" for ch
  proof -
    from D that obtain q where "rr ch = Some q" "q < next_addr s1" "heap s1 q = np_full buffer_size NaN"
      by blast
    with old [of q] B show ?thesis by auto
  qed
  from D have rr_out: "rr ch = None" if "ch \<notin> set channels" for ch
    using that by simp
  show "raw_view plot_init = raw_buffers (init_state now csv0)"
  proof
    fix ch
    show "raw_view plot_init ch = raw_buffers (init_state now csv0) ch"
    proof (cases "ch \<in> set channels")
      case True
      with rr_in [OF True] show ?thesis
        by (auto simp: raw_view_def init init_state_def dict_of_eq)
    next
      case False
      with rr_out [OF False] show ?thesis
        by (simp add: raw_view_def init init_state_def dict_of_eq)
    qed
  qed
  show "filtered_view plot_init = filtered_buffers (init_state now csv0)"
  proof
    fix band
    show "filtered_view plot_init band = filtered_buffers (init_state now csv0) band"
    proof (cases "band \<in> set (map fst BANDS)")
      case True
      with B obtain d where d: "fr band = Some d"
        "\<And>ch. ch \<in> set channels \<Longrightarrow> \<exists>q. d ch = Some q \<and> heap s2 q = np_full buffer_size NaN"
        "\<And>ch. ch \<notin> set channels \<Longrightarrow> d ch = None"
        by blast
      have "(\<lambda>ch. map_option (heap s2) (d ch)) = dict_of channels (\<lambda>channel. np_full buffer_size NaN)"
      proof
        fix ch
        show "map_option (heap s2) (d ch) = dict_of channels (\<lambda>channel. np_full buffer_size NaN) ch"
          using d(2) [of ch] d(3) [of ch] by (cases "ch \<in> set channels") (auto simp: dict_of_eq)
      qed
      with True d(1) show ?thesis
        by (simp add: filtered_view_def init init_state_def dict_of_eq)
    next
      case False
      with B have "fr band = None" by simp
      with False show ?thesis
        by (simp add: filtered_view_def init init_state_def dict_of_eq)
    qed
  qed
  show "refs_allocated plot_init"
    unfolding refs_allocated_def
  proof (intro conjI allI impI)
    fix ch p
    assume "raw_refs plot_init ch = Some p"
    then have p: "rr ch = Some p" by (simp add: init)
    with rr_out [of ch] have "ch \<in> set channels" by auto
    from rr_in [OF this] p show "p < next_addr plot_init" by (auto simp: init)
  next
    fix band d ch p
    assume "filtered_refs plot_init band = Some d" "d ch = Some p"
    then have f: "fr band = Some d" and p: "d ch = Some p" by (simp_all add: init)
    from B f have "band \<in> set (map fst BANDS)" by (cases "band \<in> set (map fst BANDS)") auto
    with B f have
      inn: "\<And>c. c \<in> set channels \<Longrightarrow> \<exists>q. d c = Some q \<and> q < next_addr s2" and
      out: "\<And>c. c \<notin> set channels \<Longrightarrow> d c = None"
      by fastforce+
    from out [of ch] p have "ch \<in> set channels" by auto
    from inn [OF this] p show "p < next_addr plot_init"
      by (auto simp: init)
  qed
qed

end
